theory Spec2Isabelle
  imports
    Complex_Main
    "HOL-Library.Log_Nat"
    "HOL-Library.Sublist"
    "HOL-Library.Product_Lexorder"
    "HOL-Library.Multiset"
    "HOL-Library.Word"
begin

section \<open>The monitor script: memory, disk and java processes\<close>

text \<open>
  The script reads \<^verbatim>\<open>/proc/meminfo\<close>, the usage of a file system, the output of
  \<^verbatim>\<open>pgrep -f java\<close> and, for each process id, \<^verbatim>\<open>/proc/<pid>/status\<close> and
  \<^verbatim>\<open>/proc/<pid>/cmdline\<close>. Each of these reads is an input of the model (the record
  \<open>os_env\<close> below holds what each read returns or the exception it raises); everything
  the script computes from them is a function of this theory. Exceptions are values
  of the type \<open>error\<close>, a computation that may raise returns \<open>error + 'a\<close>, and each
  \<^verbatim>\<open>try ... except Exception\<close> of the script is a case distinction on such a value.

  Left out: the interrupt from the keyboard (it is no \<^verbatim>\<open>Exception\<close>, and only ends
  the loop of live mode), the pause between two passes of that loop, writing the log
  file, and the layout of printed numbers.
\<close>

datatype error =
  OSError | UnicodeDecodeError | CalledProcessError
  | IndexError | ValueError | ZeroDivisionError | OverflowError

subsection \<open>Text: the methods of \<^verbatim>\<open>str\<close> and \<^verbatim>\<open>bytes\<close> the script calls\<close>

text \<open>
  A \<^verbatim>\<open>str\<close> is a list of characters with code points below 256. On these,
  \<^verbatim>\<open>str.isspace\<close>, \<^verbatim>\<open>str.lower\<close> and the line boundaries of
  \<^verbatim>\<open>str.splitlines\<close> are character-wise and are the tables written out here.
\<close>

definition py_isspace :: "char \<Rightarrow> bool" where
  "py_isspace c \<longleftrightarrow>
     c \<in> set [CHR 0x09, CHR 0x0A, CHR 0x0B, CHR 0x0C, CHR 0x0D, CHR 0x1C, CHR 0x1D,
              CHR 0x1E, CHR 0x1F, CHR 0x20, CHR 0x85, CHR 0xA0]"

definition py_strip :: "string \<Rightarrow> string" where
  "py_strip s = rev (dropWhile py_isspace (rev (dropWhile py_isspace s)))"

text \<open>\<^verbatim>\<open>s.split()\<close>: the maximal runs of characters that are not white space.\<close>

fun split_from :: "string \<Rightarrow> string \<Rightarrow> string list" where
  "split_from cur [] = (if cur = [] then [] else [rev cur])"
| "split_from cur (c # cs) =
     (if py_isspace c
      then (if cur = [] then split_from [] cs else rev cur # split_from [] cs)
      else split_from (c # cur) cs)"

definition py_split :: "string \<Rightarrow> string list" where
  "py_split s = split_from [] s"

text \<open>\<^verbatim>\<open>s.split(sep)\<close> for a separator of one character: never an empty list.\<close>

fun py_split_sep :: "char \<Rightarrow> string \<Rightarrow> string list" where
  "py_split_sep sep [] = [[]]"
| "py_split_sep sep (c # cs) =
     (if c = sep then [] # py_split_sep sep cs
      else (case py_split_sep sep cs of
              [] \<Rightarrow> [[c]]
            | w # ws \<Rightarrow> (c # w) # ws))"

definition is_linebreak :: "char \<Rightarrow> bool" where
  "is_linebreak c \<longleftrightarrow>
     c \<in> set [CHR 0x0A, CHR 0x0B, CHR 0x0C, CHR 0x0D, CHR 0x1C, CHR 0x1D, CHR 0x1E, CHR 0x85]"

text \<open>
  \<^verbatim>\<open>s.splitlines()\<close>: lines without their terminators; carriage return followed by
  line feed is one terminator; no empty last line after a final terminator.
\<close>

fun lines_from :: "string \<Rightarrow> string \<Rightarrow> string list" where
  "lines_from cur [] = (if cur = [] then [] else [rev cur])"
| "lines_from cur (c # cs) =
     (if c = CHR 0x0D
      then (case cs of
              [] \<Rightarrow> [rev cur]
            | d # ds \<Rightarrow> if d = CHR 0x0A then rev cur # lines_from [] ds
                       else rev cur # lines_from [] (d # ds))
      else if is_linebreak c then rev cur # lines_from [] cs
      else lines_from (c # cur) cs)"

definition py_splitlines :: "string \<Rightarrow> string list" where
  "py_splitlines s = lines_from [] s"

definition lower_char :: "char \<Rightarrow> char" where
  "lower_char c =
     (let n = (of_char c :: nat)
      in if (65 \<le> n \<and> n \<le> 90) \<or> (192 \<le> n \<and> n \<le> 222 \<and> n \<noteq> 215)
         then char_of (n + 32) else c)"

definition py_lower :: "string \<Rightarrow> string" where
  "py_lower s = map lower_char s"

text \<open>\<^verbatim>\<open>a in b\<close> on strings: \<open>a\<close> occurs in \<open>b\<close> as a contiguous run.\<close>

definition py_in :: "string \<Rightarrow> string \<Rightarrow> bool" where
  "py_in a b \<longleftrightarrow> sublist a b"

definition py_startswith :: "string \<Rightarrow> string \<Rightarrow> bool" where
  "py_startswith s p \<longleftrightarrow> prefix p s"

text \<open>
  \<^verbatim>\<open>int(s)\<close> in base ten: white space around, an optional sign, then decimal
  digits, where single underscores may stand between two digits. Anything else raises
  ValueError. (The interpreter's limit on the number of digits, 4300 by default since
  Python 3.11, is not part of the model: the texts are shorter.)
\<close>

definition digit_of :: "char \<Rightarrow> int option" where
  "digit_of c =
     (let n = (of_char c :: nat)
      in if 48 \<le> n \<and> n \<le> 57 then Some (int n - 48) else None)"

fun digits_val :: "int \<Rightarrow> string \<Rightarrow> error + int" where
  "digits_val acc [] = Inr acc"
| "digits_val acc (c # cs) =
     (if c = CHR ''_''
      then (case cs of
              [] \<Rightarrow> Inl ValueError
            | d # ds \<Rightarrow> (case digit_of d of
                          None \<Rightarrow> Inl ValueError
                        | Some v \<Rightarrow> digits_val (acc * 10 + v) ds))
      else (case digit_of c of
              None \<Rightarrow> Inl ValueError
            | Some v \<Rightarrow> digits_val (acc * 10 + v) cs))"

definition unsigned_int :: "string \<Rightarrow> error + int" where
  "unsigned_int s =
     (case s of
        [] \<Rightarrow> Inl ValueError
      | c # cs \<Rightarrow> (case digit_of c of
                    None \<Rightarrow> Inl ValueError
                  | Some v \<Rightarrow> digits_val v cs))"

definition py_int :: "string \<Rightarrow> error + int" where
  "py_int s =
     (case py_strip s of
        [] \<Rightarrow> Inl ValueError
      | c # cs \<Rightarrow>
          if c = CHR ''-'' then (case unsigned_int cs of Inl e \<Rightarrow> Inl e | Inr n \<Rightarrow> Inr (- n))
          else if c = CHR ''+'' then unsigned_int cs
          else unsigned_int (c # cs))"

text \<open>
  Bytes are 8-bit words. \<^verbatim>\<open>bytes.strip\<close> removes the six ASCII white-space bytes at
  both ends.
\<close>

type_synonym byte = "8 word"

definition bytes_replace_nul :: "byte list \<Rightarrow> byte list" where
  "bytes_replace_nul bs = map (\<lambda>b. if b = 0x00 then 0x20 else b) bs"

definition bytes_isspace :: "byte \<Rightarrow> bool" where
  "bytes_isspace b \<longleftrightarrow> b \<in> set [0x09, 0x0A, 0x0B, 0x0C, 0x0D, 0x20]"

definition bytes_strip :: "byte list \<Rightarrow> byte list" where
  "bytes_strip bs = rev (dropWhile bytes_isspace (rev (dropWhile bytes_isspace bs)))"

subsection \<open>Floats: binary64 arithmetic on rationals\<close>

text \<open>
  A finite float is the rational it stands for (the two zeros are one value: they
  compare equal in Python). \<open>round_double\<close> rounds a rational to the nearest binary64
  value, ties to the even significand, with 53 bits above \<open>2 powi (-1022)\<close> and the
  fixed spacing \<open>2 powi (-1074)\<close> below; a result of magnitude \<open>2 ^ 1024\<close> or more is
  an overflow. Division of two integers (\<^verbatim>\<open>a / b\<close>) and the product of two floats
  are the exact result rounded once, as CPython computes them.
\<close>

definition round_half_even :: "rat \<Rightarrow> int" where
  "round_half_even x =
     (let f = \<lfloor>x\<rfloor>; d = x - of_int f
      in if d < 1 / 2 then f else if 1 / 2 < d then f + 1 else if even f then f else f + 1)"

definition exponent :: "rat \<Rightarrow> int" where
  "exponent q =
     (case quotient_of \<bar>q\<bar> of
        (a, b) \<Rightarrow> let d = bitlen a - bitlen b in if 2 powi d \<le> \<bar>q\<bar> then d else d - 1)"

definition ulp :: "rat \<Rightarrow> rat" where
  "ulp q = 2 powi (max (exponent q) (- 1022) - 52)"

definition round_double :: "rat \<Rightarrow> rat" where
  "round_double q = (if q = 0 then 0 else of_int (round_half_even (q / ulp q)) * ulp q)"

definition max_double :: rat where
  "max_double = 2 ^ 1024 - 2 ^ 971"

datatype pyfloat = Fin rat | PInf | NInf

definition to_float :: "rat \<Rightarrow> pyfloat" where
  "to_float r = (if max_double < r then PInf else if r < - max_double then NInf else Fin r)"

text \<open>\<^verbatim>\<open>a / b\<close> on integers: ZeroDivisionError, OverflowError or a finite float.\<close>

definition int_truediv :: "int \<Rightarrow> int \<Rightarrow> error + rat" where
  "int_truediv a b =
     (if b = 0 then Inl ZeroDivisionError
      else let r = round_double (of_int a / of_int b)
           in if max_double < \<bar>r\<bar> then Inl OverflowError else Inr r)"

text \<open>\<^verbatim>\<open>x * y\<close> on finite floats: overflow gives an infinity, never an exception.\<close>

definition float_mul :: "rat \<Rightarrow> rat \<Rightarrow> pyfloat" where
  "float_mul x y = to_float (round_double (x * y))"

text \<open>
  \<^verbatim>\<open>round(x, 1)\<close>: CPython writes the exact value of \<open>x\<close> in decimal with one digit
  after the point, correctly rounded with ties to the even digit, and reads the
  result back as a float; an infinity is returned as it is.
\<close>

definition round1 :: "rat \<Rightarrow> rat" where
  "round1 x = round_double (of_int (round_half_even (x * 10)) / 10)"

fun py_round1 :: "pyfloat \<Rightarrow> pyfloat" where
  "py_round1 (Fin x) = Fin (round1 x)"
| "py_round1 PInf = PInf"
| "py_round1 NInf = NInf"

fun pyfloat_ge :: "pyfloat \<Rightarrow> rat \<Rightarrow> bool" where
  "pyfloat_ge (Fin x) t = (t \<le> x)"
| "pyfloat_ge PInf t = True"
| "pyfloat_ge NInf t = False"

subsection \<open>What the operating system returns\<close>

text \<open>
  One field for each read of the script, holding the value read or the exception
  raised. \<open>read_status\<close> gives the lines that iterating the file yields and the
  exception that ends the iteration, if one does. \<open>decode_ignore\<close> is UTF-8 decoding
  that drops what it cannot decode (\<^verbatim>\<open>decode(errors='ignore')\<close>); it raises
  nothing, and no property below depends on which text it returns.
\<close>

record os_env =
  read_meminfo :: "error + string"
  disk_usage :: "string \<Rightarrow> error + (int \<times> int \<times> int)"
  pgrep_java :: "error + string"
  read_status :: "int \<Rightarrow> error + (string list \<times> error option)"
  read_cmdline :: "int \<Rightarrow> error + byte list"
  decode_ignore :: "byte list \<Rightarrow> string"

subsection \<open>\<open>get_mem_percent\<close>\<close>

definition dict_get :: "('k \<rightharpoonup> 'v) \<Rightarrow> 'k \<Rightarrow> 'v \<Rightarrow> 'v" where
  "dict_get m k d = (case m k of None \<Rightarrow> d | Some v \<Rightarrow> v)"

text \<open>
  The loop over the lines: a line without a colon is skipped; otherwise the text
  before the first colon is the key, and the value is the first word of the text
  between the first colon and the next one (or the end of the line). A line with no
  word there raises IndexError, a word that is no integer ValueError. A key met
  again overwrites.
\<close>

fun parse_meminfo :: "string list \<Rightarrow> (string \<rightharpoonup> int) \<Rightarrow> error + (string \<rightharpoonup> int)" where
  "parse_meminfo [] mem = Inr mem"
| "parse_meminfo (l # ls) mem =
     (let parts = py_split_sep CHR '':'' l
      in if length parts < 2 then parse_meminfo ls mem
         else (case py_split (py_strip (parts ! 1)) of
                 [] \<Rightarrow> Inl IndexError
               | val # _ \<Rightarrow>
                   (case py_int val of
                      Inl e \<Rightarrow> Inl e
                    | Inr n \<Rightarrow> parse_meminfo ls (mem(parts ! 0 \<mapsto> n)))))"

definition meminfo_counters :: "os_env \<Rightarrow> error + (string \<rightharpoonup> int)" where
  "meminfo_counters env =
     (case read_meminfo env of
        Inl e \<Rightarrow> Inl e
      | Inr info \<Rightarrow> parse_meminfo (py_splitlines info) Map.empty)"

definition mem_total :: "(string \<rightharpoonup> int) \<Rightarrow> int" where
  "mem_total mem = dict_get mem ''MemTotal'' 0"

definition mem_avail :: "(string \<rightharpoonup> int) \<Rightarrow> int" where
  "mem_avail mem =
     dict_get mem ''MemAvailable''
       (dict_get mem ''MemFree'' 0 + dict_get mem ''Buffers'' 0 + dict_get mem ''Cached'' 0)"

text \<open>The body of the \<^verbatim>\<open>try\<close>, then the function with its \<^verbatim>\<open>except Exception\<close>.\<close>

definition get_mem_percent_try :: "os_env \<Rightarrow> error + pyfloat" where
  "get_mem_percent_try env =
     (case meminfo_counters env of
        Inl e \<Rightarrow> Inl e
      | Inr mem \<Rightarrow>
          let total = mem_total mem; avail = mem_avail mem
          in if total = 0 then Inr (Fin 0)
             else (case int_truediv (total - avail) total of
                     Inl e \<Rightarrow> Inl e
                   | Inr x \<Rightarrow> Inr (py_round1 (float_mul x 100))))"

definition get_mem_percent :: "os_env \<Rightarrow> pyfloat" where
  "get_mem_percent env = (case get_mem_percent_try env of Inl e \<Rightarrow> Fin 0 | Inr v \<Rightarrow> v)"

subsection \<open>\<open>get_disk_percent\<close>\<close>

definition get_disk_percent_try :: "os_env \<Rightarrow> string \<Rightarrow> error + pyfloat" where
  "get_disk_percent_try env path =
     (case disk_usage env path of
        Inl e \<Rightarrow> Inl e
      | Inr (tot, used, fr) \<Rightarrow>
          (case int_truediv used tot of
             Inl e \<Rightarrow> Inl e
           | Inr x \<Rightarrow> Inr (py_round1 (float_mul x 100))))"

definition get_disk_percent :: "os_env \<Rightarrow> string \<Rightarrow> pyfloat" where
  "get_disk_percent env path =
     (case get_disk_percent_try env path of Inl e \<Rightarrow> Fin 0 | Inr v \<Rightarrow> v)"

subsection \<open>\<open>find_java_pids\<close>\<close>

fun int_each :: "string list \<Rightarrow> error + int list" where
  "int_each [] = Inr []"
| "int_each (x # xs) =
     (case py_int x of
        Inl e \<Rightarrow> Inl e
      | Inr n \<Rightarrow> (case int_each xs of Inl e \<Rightarrow> Inl e | Inr ns \<Rightarrow> Inr (n # ns)))"

definition find_java_pids_try :: "os_env \<Rightarrow> error + int list" where
  "find_java_pids_try env =
     (case pgrep_java env of
        Inl e \<Rightarrow> Inl e
      | Inr text \<Rightarrow>
          let out = py_strip text
          in if out = [] then Inr []
             else int_each (filter (\<lambda>x. py_strip x \<noteq> []) (py_split out)))"

definition find_java_pids :: "os_env \<Rightarrow> int list" where
  "find_java_pids env = (case find_java_pids_try env of Inl e \<Rightarrow> [] | Inr pids \<Rightarrow> pids)"

subsection \<open>\<open>get_rss_kb\<close>\<close>

text \<open>
  The loop returns at the first line that starts with \<^verbatim>\<open>VmRSS:\<close>: the integer
  in its second word (IndexError without one, ValueError when it is no integer). A file
  without such a line falls through to \<^verbatim>\<open>return 0\<close>, as every exception does.
\<close>

fun scan_status :: "string list \<Rightarrow> error option \<Rightarrow> error + int option" where
  "scan_status [] fin = (case fin of None \<Rightarrow> Inr None | Some e \<Rightarrow> Inl e)"
| "scan_status (line # rest) fin =
     (if py_startswith line ''VmRSS:''
      then (case py_split line of
              a # b # _ \<Rightarrow> (case py_int b of Inl e \<Rightarrow> Inl e | Inr n \<Rightarrow> Inr (Some n))
            | _ \<Rightarrow> Inl IndexError)
      else scan_status rest fin)"

definition get_rss_kb_try :: "os_env \<Rightarrow> int \<Rightarrow> error + int option" where
  "get_rss_kb_try env pid =
     (case read_status env pid of
        Inl e \<Rightarrow> Inl e
      | Inr (lines, fin) \<Rightarrow> scan_status lines fin)"

definition get_rss_kb :: "os_env \<Rightarrow> int \<Rightarrow> int" where
  "get_rss_kb env pid =
     (case get_rss_kb_try env pid of
        Inl e \<Rightarrow> 0
      | Inr None \<Rightarrow> 0
      | Inr (Some n) \<Rightarrow> n)"

subsection \<open>\<open>get_cmdline\<close>\<close>

definition get_cmdline_try :: "os_env \<Rightarrow> int \<Rightarrow> error + string" where
  "get_cmdline_try env pid =
     (case read_cmdline env pid of
        Inl e \<Rightarrow> Inl e
      | Inr bs \<Rightarrow> Inr (decode_ignore env (bytes_strip (bytes_replace_nul bs))))"

definition get_cmdline :: "os_env \<Rightarrow> int \<Rightarrow> string" where
  "get_cmdline env pid = (case get_cmdline_try env pid of Inl e \<Rightarrow> [] | Inr s \<Rightarrow> s)"

subsection \<open>\<open>watch_java\<close>: one pass of the loop\<close>

definition default_keywords :: "string list" where
  "default_keywords = [''forge'', ''minecraft'', ''kubejs'', ''server'', ''paper'', ''spigot'']"

definition watch_java_keywords :: "string list option \<Rightarrow> string list" where
  "watch_java_keywords filter_keywords =
     (case filter_keywords of None \<Rightarrow> default_keywords | Some kws \<Rightarrow> kws)"

fun score_loop :: "string \<Rightarrow> string list \<Rightarrow> int \<Rightarrow> int" where
  "score_loop cmd [] score = score"
| "score_loop cmd (kw # kws) score =
     score_loop cmd kws (if py_in (py_lower kw) (py_lower cmd) then score + 1 else score)"

text \<open>A row is \<open>(score, pid, mb, cmd)\<close>. The division raises outside any \<^verbatim>\<open>try\<close>.\<close>

type_synonym row = "int \<times> int \<times> rat \<times> string"

fun watch_java_rows :: "os_env \<Rightarrow> string list \<Rightarrow> int list \<Rightarrow> row list \<Rightarrow> error + row list" where
  "watch_java_rows env kws [] rows = Inr rows"
| "watch_java_rows env kws (pid # pids) rows =
     (let rss_kb = get_rss_kb env pid
      in case int_truediv rss_kb 1024 of
           Inl e \<Rightarrow> Inl e
         | Inr x \<Rightarrow>
             let mb = round1 x;
                 cmd = get_cmdline env pid;
                 score = score_loop cmd kws 0
             in watch_java_rows env kws pids (rows @ [(score, pid, mb, cmd)]))"

text \<open>
  \<^verbatim>\<open>list.sort(key=..., reverse=True)\<close>: CPython reverses the list, sorts it stably
  in ascending order of the key and reverses the result, so that equal keys keep
  their order.
\<close>

definition py_sort_reverse :: "('a \<Rightarrow> 'k::linorder) \<Rightarrow> 'a list \<Rightarrow> 'a list" where
  "py_sort_reverse key xs = rev (sort_key key (rev xs))"

definition row_key :: "row \<Rightarrow> int \<times> rat" where
  "row_key r = (case r of (score, pid, mb, cmd) \<Rightarrow> (score, mb))"

definition shorten :: "string \<Rightarrow> string" where
  "shorten cmd = (if length cmd < 120 then cmd else take 117 cmd @ ''...'')"

text \<open>
  A printed row is \<open>(mark, pid, mb, short)\<close>; the widths the numbers are printed in
  are left out.
\<close>

type_synonym printed_row = "char \<times> int \<times> rat \<times> string"

definition print_row :: "row \<Rightarrow> printed_row" where
  "print_row r =
     (case r of (score, pid, mb, cmd) \<Rightarrow>
        ((if 0 < score then CHR ''*'' else CHR '' ''), pid, mb, shorten cmd))"

datatype screen = NoProcesses | Table "printed_row list"

definition watch_java_sorted :: "os_env \<Rightarrow> string list option \<Rightarrow> error + row list" where
  "watch_java_sorted env filter_keywords =
     (case watch_java_rows env (watch_java_keywords filter_keywords) (find_java_pids env) [] of
        Inl e \<Rightarrow> Inl e
      | Inr rows \<Rightarrow> Inr (py_sort_reverse row_key rows))"

definition watch_java_cycle :: "os_env \<Rightarrow> string list option \<Rightarrow> error + screen" where
  "watch_java_cycle env filter_keywords =
     (case watch_java_sorted env filter_keywords of
        Inl e \<Rightarrow> Inl e
      | Inr rows \<Rightarrow> Inr (if rows = [] then NoProcesses else Table (map print_row rows)))"

subsection \<open>main: the snapshot\<close>

text \<open>
  A logged line is a constructor with the values the line is formatted from.
  \<open>main\<close> returns the lines logged and the exception that ended it, if one did:
  the division in the loop over the process ids stands outside any \<^verbatim>\<open>try\<close>,
  and the lines of the processes are logged after the loop and the sort.
\<close>

datatype log_msg =
  Summary pyfloat pyfloat | AlertRam pyfloat | AlertDisk pyfloat
  | NoJavaFound | DetailsHeader | Detail int rat string

type_synonym detail = "int \<times> rat \<times> string"

fun main_details :: "os_env \<Rightarrow> int list \<Rightarrow> detail list \<Rightarrow> error + detail list" where
  "main_details env [] details = Inr details"
| "main_details env (pid # pids) details =
     (let rss = get_rss_kb env pid
      in case int_truediv rss 1024 of
           Inl e \<Rightarrow> Inl e
         | Inr x \<Rightarrow>
             let mb = round1 x;
                 cmd = (case read_cmdline env pid of
                          Inl e \<Rightarrow> []
                        | Inr bs \<Rightarrow> decode_ignore env (bytes_strip (bytes_replace_nul bs)))
             in main_details env pids (details @ [(pid, mb, cmd)]))"

definition detail_mb :: "detail \<Rightarrow> rat" where
  "detail_mb d = (case d of (pid, mb, cmd) \<Rightarrow> mb)"

definition main_sorted :: "os_env \<Rightarrow> error + detail list" where
  "main_sorted env =
     (case main_details env (find_java_pids env) [] of
        Inl e \<Rightarrow> Inl e
      | Inr details \<Rightarrow> Inr (py_sort_reverse detail_mb details))"

definition TH_RAM :: rat where "TH_RAM = 80"
definition TH_DISK :: rat where "TH_DISK = 90"

definition main :: "os_env \<Rightarrow> log_msg list \<times> error option" where
  "main env =
     (let mem = get_mem_percent env;
          disk = get_disk_percent env ''/'';
          head = [Summary mem disk]
                 @ (if pyfloat_ge mem TH_RAM then [AlertRam mem] else [])
                 @ (if pyfloat_ge disk TH_DISK then [AlertDisk disk] else [])
      in if find_java_pids env = [] then (head @ [NoJavaFound], None)
         else (case main_sorted env of
                 Inl e \<Rightarrow> (head, Some e)
               | Inr details \<Rightarrow>
                   (head @ [DetailsHeader] @ map (\<lambda>(pid, mb, cmd). Detail pid mb cmd) details,
                    None)))"

subsection \<open>The command line: \<^verbatim>\<open>--filter\<close>\<close>

text \<open>
  \<open>None\<close> is an option that was not given. An empty text is false in the test
  \<^verbatim>\<open>if args.filter\<close>, so it leaves the keywords absent as well.
\<close>

definition cli_keywords :: "string option \<Rightarrow> string list option" where
  "cli_keywords filter_arg =
     (case filter_arg of
        None \<Rightarrow> None
      | Some f \<Rightarrow>
          if f = [] then None
          else Some (map py_strip (filter (\<lambda>x. py_strip x \<noteq> []) (py_split_sep CHR '','' f))))"

subsection \<open>The vocabulary of the specification\<close>

text \<open>
  The definitions of this subsection are not taken from the script. They write down
  what the specification says, in its own words, so that the functions above can be
  compared with it.
\<close>

text \<open>
  Available memory: the explicit counter if present; if absent, free + buffers +
  cache; if all are absent, 0.
\<close>

definition counter :: "(string \<rightharpoonup> int) \<Rightarrow> string \<Rightarrow> int" where
  "counter mem k = (case mem k of None \<Rightarrow> 0 | Some v \<Rightarrow> v)"

definition spec_available :: "(string \<rightharpoonup> int) \<Rightarrow> int" where
  "spec_available mem =
     (case mem ''MemAvailable'' of
        Some a \<Rightarrow> a
      | None \<Rightarrow>
          if mem ''MemFree'' = None \<and> mem ''Buffers'' = None \<and> mem ''Cached'' = None then 0
          else counter mem ''MemFree'' + counter mem ''Buffers'' + counter mem ''Cached'')"

text \<open>\<^verbatim>\<open>round((total - available) / total * 100, 1)\<close>, each operation on floats.\<close>

definition spec_used_percent :: "int \<Rightarrow> int \<Rightarrow> pyfloat" where
  "spec_used_percent tot avail =
     py_round1 (float_mul (round_double (of_int (tot - avail) / of_int tot)) 100)"

definition in_percent_range :: "pyfloat \<Rightarrow> bool" where
  "in_percent_range v = (case v of Fin r \<Rightarrow> 0 \<le> r \<and> r \<le> 100 | PInf \<Rightarrow> False | NInf \<Rightarrow> False)"

text \<open>
  Rounding to one decimal, half away from zero: the number of tenths of the result.
\<close>

definition round_half_away :: "rat \<Rightarrow> int" where
  "round_half_away x = (if 0 \<le> x then \<lfloor>x + 1 / 2\<rfloor> else - \<lfloor>- x + 1 / 2\<rfloor>)"

definition spec_round1_half_away :: "rat \<Rightarrow> rat" where
  "spec_round1_half_away x = round_double (of_int (round_half_away (x * 10)) / 10)"

text \<open>
  Rounding to one decimal, half to even: \<open>n\<close> tenths are a nearest one-decimal value
  of \<open>x\<close>, and the even one when two are equally near.
\<close>

definition nearest_tenth_even :: "rat \<Rightarrow> int \<Rightarrow> bool" where
  "nearest_tenth_even x n \<longleftrightarrow>
     \<bar>of_int n / 10 - x\<bar> \<le> 1 / 20 \<and> (\<bar>of_int n / 10 - x\<bar> < 1 / 20 \<or> even n)"

text \<open>A keyword occurs in a command line as a case-insensitive substring.\<close>

definition ci_equal :: "string \<Rightarrow> string \<Rightarrow> bool" where
  "ci_equal a b \<longleftrightarrow> list_all2 (\<lambda>x y. lower_char x = lower_char y) a b"

definition ci_occurs :: "string \<Rightarrow> string \<Rightarrow> bool" where
  "ci_occurs kw cmd \<longleftrightarrow> (\<exists>w. sublist w cmd \<and> ci_equal w kw)"

text \<open>Resident memory in MB: the kilobytes divided by 1024, rounded to one decimal.\<close>

definition mb_of_kb :: "int \<Rightarrow> rat" where
  "mb_of_kb kb = round1 (round_double (of_int kb / 1024))"

text \<open>
  The division by 1024 has a float result (it raises no OverflowError) for every
  resident size below \<open>2 ^ 1033\<close> kB; the kernel prints sizes below \<open>2 ^ 64\<close>.
\<close>

definition rss_in_range :: "int \<Rightarrow> bool" where
  "rss_in_range kb \<longleftrightarrow> \<bar>kb\<bar> < 2 ^ 1033"

text \<open>The row of live mode and the line of snapshot mode that a process id stands for.\<close>

definition live_row :: "os_env \<Rightarrow> string list \<Rightarrow> int \<Rightarrow> row" where
  "live_row env kws pid =
     (score_loop (get_cmdline env pid) kws 0, pid, mb_of_kb (get_rss_kb env pid),
      get_cmdline env pid)"

definition snapshot_detail :: "os_env \<Rightarrow> int \<Rightarrow> detail" where
  "snapshot_detail env pid = (pid, mb_of_kb (get_rss_kb env pid), get_cmdline env pid)"

definition row_score :: "row \<Rightarrow> int" where
  "row_score r = (case r of (score, pid, mb, cmd) \<Rightarrow> score)"

definition row_pid :: "row \<Rightarrow> int" where
  "row_pid r = (case r of (score, pid, mb, cmd) \<Rightarrow> pid)"

definition row_mb :: "row \<Rightarrow> rat" where
  "row_mb r = (case r of (score, pid, mb, cmd) \<Rightarrow> mb)"

definition vanished :: "os_env \<Rightarrow> int \<Rightarrow> bool" where
  "vanished env pid \<longleftrightarrow> (\<exists>e1 e2. read_status env pid = Inl e1 \<and> read_cmdline env pid = Inl e2)"

subsection \<open>Concrete systems\<close>

text \<open>
  \<open>env_down\<close>: every read fails. The others change single reads of it.
  \<open>decode_ascii\<close> is the decoder on bytes below 128, which is all the command lines
  of these systems contain.
\<close>

definition decode_ascii :: "byte list \<Rightarrow> string" where
  "decode_ascii bs = map (\<lambda>b. char_of (unat b)) (filter (\<lambda>b. b < 0x80) bs)"

definition env_down :: os_env where
  "env_down =
     \<lparr> read_meminfo = Inl OSError,
       disk_usage = (\<lambda>path. Inl OSError),
       pgrep_java = Inl CalledProcessError,
       read_status = (\<lambda>pid. Inl OSError),
       read_cmdline = (\<lambda>pid. Inl OSError),
       decode_ignore = decode_ascii \<rparr>"

definition meminfo_text :: "string \<Rightarrow> string \<Rightarrow> string" where
  "meminfo_text tot avail =
     ''MemTotal:       '' @ tot @ '' kB'' @ [CHR 0x0A]
     @ ''MemFree:        7 kB'' @ [CHR 0x0A]
     @ ''MemAvailable:   '' @ avail @ '' kB'' @ [CHR 0x0A]"

definition meminfo_counts :: "int \<Rightarrow> int \<Rightarrow> (string \<rightharpoonup> int)" where
  "meminfo_counts tot avail =
     [''MemTotal'' \<mapsto> tot, ''MemFree'' \<mapsto> 7, ''MemAvailable'' \<mapsto> avail]"

definition env_typical :: os_env where
  "env_typical =
     env_down \<lparr> read_meminfo := Inr (meminfo_text ''1000'' ''200''),
                disk_usage := (\<lambda>path. Inr (1000, 333, 667)) \<rparr>"

definition env_over :: os_env where
  "env_over = env_down \<lparr> read_meminfo := Inr (meminfo_text ''100'' ''200'') \<rparr>"

definition env_quarter :: os_env where
  "env_quarter =
     env_down \<lparr> read_meminfo := Inr (meminfo_text ''400'' ''399''),
                disk_usage := (\<lambda>path. Inr (400, 1, 399)) \<rparr>"

definition env_zero :: os_env where
  "env_zero = env_down \<lparr> read_meminfo := Inr (meminfo_text ''0'' ''0'') \<rparr>"

definition env_malformed :: os_env where
  "env_malformed = env_down \<lparr> read_meminfo := Inr ''MemTotal:'' \<rparr>"

text \<open>A system whose \<^verbatim>\<open>/proc/meminfo\<close> has no MemAvailable line.\<close>

definition meminfo_old_text :: string where
  "meminfo_old_text =
     ''MemTotal:       1000 kB'' @ [CHR 0x0A]
     @ ''MemFree:        100 kB'' @ [CHR 0x0A]
     @ ''Buffers:        50 kB'' @ [CHR 0x0A]
     @ ''Cached:         50 kB'' @ [CHR 0x0A]"

definition meminfo_old_counts :: "string \<rightharpoonup> int" where
  "meminfo_old_counts =
     [''MemTotal'' \<mapsto> 1000, ''MemFree'' \<mapsto> 100, ''Buffers'' \<mapsto> 50, ''Cached'' \<mapsto> 50]"

definition env_old :: os_env where
  "env_old = env_down \<lparr> read_meminfo := Inr meminfo_old_text \<rparr>"

text \<open>
  Four processes found by \<^verbatim>\<open>pgrep\<close>: 101 (``java'', 2048 kB), 102 (``java'',
  2049 kB), 103, which is gone when its files are read, and 104 (``paper'', 1024 kB).
\<close>

definition status_text :: "string \<Rightarrow> string list" where
  "status_text kb =
     [''Name:'' @ [CHR 0x09] @ ''java'' @ [CHR 0x0A],
      ''VmRSS:'' @ [CHR 0x09] @ ''    '' @ kb @ '' kB'' @ [CHR 0x0A]]"

definition env_procs :: os_env where
  "env_procs =
     env_down
       \<lparr> pgrep_java :=
           Inr (''101'' @ [CHR 0x0A] @ ''102'' @ [CHR 0x0A] @ ''103'' @ [CHR 0x0A]
                @ ''104'' @ [CHR 0x0A]),
         read_status :=
           (\<lambda>pid. if pid = 101 then Inr (status_text ''2048'', None)
                  else if pid = 102 then Inr (status_text ''2049'', None)
                  else if pid = 104 then Inr (status_text ''1024'', None)
                  else Inl OSError),
         read_cmdline :=
           (\<lambda>pid. if pid = 101 \<or> pid = 102 then Inr [0x6A, 0x61, 0x76, 0x61, 0x00]
                  else if pid = 104 then Inr [0x70, 0x61, 0x70, 0x65, 0x72, 0x00]
                  else Inl OSError) \<rparr>"

section \<open>Properties of the float arithmetic\<close>

text \<open>
  \<open>exponent\<close> is the binary exponent, \<open>round_half_even\<close> a nearest integer; a value
  on the grid of a float's last place is not crossed by rounding. From these follow
  the bounds used below and the means to evaluate \<open>round_double\<close> at a number.
\<close>

lemma round_half_even_le: "x \<le> of_int n \<Longrightarrow> round_half_even x \<le> n"
proof -
  assume h: "x \<le> of_int n"
  have f: "\<lfloor>x\<rfloor> \<le> n" using h by (simp add: floor_le_iff) 
  show ?thesis
  proof (cases "x = of_int n")
    case True
    then show ?thesis by (simp add: round_half_even_def)
  next
    case False
    with h have "x < of_int n" by simp
    then have "\<lfloor>x\<rfloor> < n" by (simp add: floor_less_iff)
    then show ?thesis by (simp add: round_half_even_def Let_def)
  qed
qed

lemma round_half_even_ge: "of_int n \<le> x \<Longrightarrow> n \<le> round_half_even x"
proof -
  assume "of_int n \<le> x"
  then have "n \<le> \<lfloor>x\<rfloor>" by (simp add: le_floor_iff)
  then show ?thesis by (simp add: round_half_even_def Let_def)
qed

lemma round_half_even_near: "\<bar>of_int (round_half_even x) - x\<bar> \<le> 1 / 2"
proof -
  have "of_int \<lfloor>x\<rfloor> \<le> x" "x < of_int \<lfloor>x\<rfloor> + 1" by linarith+
  then show ?thesis by (auto simp: round_half_even_def Let_def)
qed

lemma round_half_even_tie:
  "\<bar>of_int (round_half_even x) - x\<bar> = 1 / 2 \<Longrightarrow> even (round_half_even x)"
proof -
  have "of_int \<lfloor>x\<rfloor> \<le> x" "x < of_int \<lfloor>x\<rfloor> + 1" by linarith+
  then show "\<bar>of_int (round_half_even x) - x\<bar> = 1 / 2 \<Longrightarrow> even (round_half_even x)"
    by (auto simp: round_half_even_def Let_def split: if_splits)
qed

lemma round_half_even_of_int [simp]: "round_half_even (of_int n) = n"
  by (simp add: round_half_even_def)

lemma exponent_bounds:
  assumes "q \<noteq> 0"
  shows "2 powi exponent q \<le> \<bar>q\<bar>" and "\<bar>q\<bar> < 2 powi (exponent q + 1)"
proof -
  obtain a b where ab: "quotient_of \<bar>q\<bar> = (a, b)" by (cases "quotient_of \<bar>q\<bar>")
  have bpos: "0 < b" using ab quotient_of_denom_pos by blast
  have qab: "\<bar>q\<bar> = of_int a / of_int b" using ab quotient_of_div by blast
  have "0 < \<bar>q\<bar>" using assms by simp
  then have apos: "0 < a" using qab bpos by (simp add: zero_less_divide_iff)
  define la where "la = bitlen a"
  define lb where "lb = bitlen b"
  have la1: "1 \<le> la" using apos by (simp add: la_def bitlen_alt_def)
  have lb1: "1 \<le> lb" using bpos by (simp add: lb_def bitlen_alt_def)
  have "2 ^ nat (la - 1) \<le> a" "a < 2 ^ nat la" using bitlen_bounds[OF apos] by (simp_all add: la_def)
  then have "(of_int (2 ^ nat (la - 1)) :: rat) \<le> of_int a" "(of_int a :: rat) < of_int (2 ^ nat la)"
    by (simp_all only: of_int_le_iff of_int_less_iff)
  then have a_lo: "(2::rat) powi (la - 1) \<le> of_int a" and a_hi: "(of_int a :: rat) < 2 powi la"
    using la1 by (simp_all add: power_int_nonneg_exp)
  have "2 ^ nat (lb - 1) \<le> b" "b < 2 ^ nat lb" using bitlen_bounds[OF bpos] by (simp_all add: lb_def)
  then have "(of_int (2 ^ nat (lb - 1)) :: rat) \<le> of_int b" "(of_int b :: rat) < of_int (2 ^ nat lb)"
    by (simp_all only: of_int_le_iff of_int_less_iff)
  then have b_lo: "(2::rat) powi (lb - 1) \<le> of_int b" and b_hi: "(of_int b :: rat) < 2 powi lb"
    using lb1 by (simp_all add: power_int_nonneg_exp)
  have bq: "(0::rat) < of_int b" using bpos by simp
  have lower: "(2::rat) powi (la - lb - 1) \<le> \<bar>q\<bar>"
  proof -
    have "(2::rat) powi (la - lb - 1) * of_int b \<le> 2 powi (la - lb - 1) * 2 powi lb"
      using b_hi by (simp add: less_imp_le)
    also have "\<dots> = 2 powi (la - 1)" by (simp add: power_int_add [symmetric])
    also have "\<dots> \<le> of_int a" by (rule a_lo)
    finally show ?thesis using bq by (simp add: qab pos_le_divide_eq)
  qed
  have upper: "\<bar>q\<bar> < (2::rat) powi (la - lb + 1)"
  proof -
    have "of_int a < (2::rat) powi la" by (rule a_hi)
    also have "\<dots> = 2 powi (la - lb + 1) * 2 powi (lb - 1)" by (simp add: power_int_add [symmetric])
    also have "\<dots> \<le> 2 powi (la - lb + 1) * of_int b" using b_lo by simp
    finally show ?thesis using bq by (simp add: qab pos_divide_less_eq)
  qed
  have e: "exponent q = (if 2 powi (la - lb) \<le> \<bar>q\<bar> then la - lb else la - lb - 1)"
    by (simp add: exponent_def ab la_def lb_def Let_def)
  show "2 powi exponent q \<le> \<bar>q\<bar>" using lower by (simp add: e)
  show "\<bar>q\<bar> < 2 powi (exponent q + 1)" using upper by (auto simp add: e not_le)
qed

lemma exponent_unique:
  assumes "q \<noteq> 0" "2 powi e \<le> \<bar>q\<bar>" "\<bar>q\<bar> < 2 powi (e + 1)"
  shows "exponent q = e"
proof (rule ccontr)
  assume ne: "exponent q \<noteq> e"
  note b = exponent_bounds[OF assms(1)]
  show False
  proof (cases "exponent q < e")
    case True
    then have "(2::rat) powi (exponent q + 1) \<le> 2 powi e"
      by (intro power_int_increasing) simp_all
    with b(2) assms(2) show False by simp
  next
    case False
    with ne have "e + 1 \<le> exponent q" by simp
    then have "(2::rat) powi (e + 1) \<le> 2 powi exponent q"
      by (intro power_int_increasing) simp_all
    with b(1) assms(3) show False by simp
  qed
qed

lemma exponent_le:
  assumes "q \<noteq> 0" "\<bar>q\<bar> < 2 powi k"
  shows "exponent q < k"
proof (rule ccontr)
  assume "\<not> exponent q < k"
  then have "(2::rat) powi k \<le> 2 powi exponent q"
    by (intro power_int_increasing) simp_all
  with exponent_bounds(1)[OF assms(1)] assms(2) show False by simp
qed

lemma round_half_even_eqI:
  assumes "\<bar>of_int n - x\<bar> < 1 / 2"
  shows "round_half_even x = n"
proof -
  have 1: "round_half_even x \<le> n"
  proof (rule ccontr)
    assume "\<not> round_half_even x \<le> n"
    then have "n + 1 \<le> round_half_even x" by simp
    then have "of_int (n + 1) \<le> (of_int (round_half_even x) :: rat)" by (simp only: of_int_le_iff)
    then have "of_int n + 1 \<le> (of_int (round_half_even x) :: rat)" by simp
    with round_half_even_near[of x] assms show False by linarith
  qed
  have 2: "n \<le> round_half_even x"
  proof (rule ccontr)
    assume "\<not> n \<le> round_half_even x"
    then have "round_half_even x \<le> n - 1" by simp
    then have "(of_int (round_half_even x) :: rat) \<le> of_int (n - 1)" by (simp only: of_int_le_iff)
    then have "(of_int (round_half_even x) :: rat) \<le> of_int n - 1" by simp
    with round_half_even_near[of x] assms show False by linarith
  qed
  from 1 2 show ?thesis by simp
qed

lemma round_half_even_tieI:
  assumes "\<bar>of_int n - x\<bar> = 1 / 2" "even n"
  shows "round_half_even x = n"
proof -
  have 1: "round_half_even x \<le> n + 1"
  proof (rule ccontr)
    assume "\<not> round_half_even x \<le> n + 1"
    then have "n + 2 \<le> round_half_even x" by simp
    then have "of_int (n + 2) \<le> (of_int (round_half_even x) :: rat)" by (simp only: of_int_le_iff)
    then have "of_int n + 2 \<le> (of_int (round_half_even x) :: rat)" by simp
    with round_half_even_near[of x] assms(1) show False by linarith
  qed
  have 2: "n - 1 \<le> round_half_even x"
  proof (rule ccontr)
    assume "\<not> n - 1 \<le> round_half_even x"
    then have "round_half_even x \<le> n - 2" by simp
    then have "(of_int (round_half_even x) :: rat) \<le> of_int (n - 2)" by (simp only: of_int_le_iff)
    then have "(of_int (round_half_even x) :: rat) \<le> of_int n - 2" by simp
    with round_half_even_near[of x] assms(1) show False by linarith
  qed
  have 3: "round_half_even x \<noteq> n + 1"
  proof
    assume h: "round_half_even x = n + 1"
    then have "(of_int (round_half_even x) :: rat) = of_int n + 1" by simp
    then have "\<bar>of_int (round_half_even x) - x\<bar> = 1 / 2"
      using round_half_even_near[of x] assms(1) by linarith
    from round_half_even_tie[OF this] h assms(2) show False by simp
  qed
  have 4: "round_half_even x \<noteq> n - 1"
  proof
    assume h: "round_half_even x = n - 1"
    then have "(of_int (round_half_even x) :: rat) = of_int n - 1" by simp
    then have "\<bar>of_int (round_half_even x) - x\<bar> = 1 / 2"
      using round_half_even_near[of x] assms(1) by linarith
    from round_half_even_tie[OF this] h assms(2) show False by simp
  qed
  from 1 2 3 4 show ?thesis by linarith
qed

lemma round_double_eqI:
  assumes "q \<noteq> 0" "2 powi e \<le> \<bar>q\<bar>" "\<bar>q\<bar> < 2 powi (e + 1)"
    and "u = 2 powi (max e (- 1022) - 52)"
    and "\<bar>of_int n - q / u\<bar> < 1 / 2"
  shows "round_double q = of_int n * u"
proof -
  have "exponent q = e" using assms(1-3) by (rule exponent_unique)
  then have "ulp q = u" by (simp add: ulp_def assms(4))
  then show ?thesis using assms(1) round_half_even_eqI[OF assms(5)] by (simp add: round_double_def)
qed

lemma round_double_tieI:
  assumes "q \<noteq> 0" "2 powi e \<le> \<bar>q\<bar>" "\<bar>q\<bar> < 2 powi (e + 1)"
    and "u = 2 powi (max e (- 1022) - 52)"
    and "\<bar>of_int n - q / u\<bar> = 1 / 2" "even n"
  shows "round_double q = of_int n * u"
proof -
  have "exponent q = e" using assms(1-3) by (rule exponent_unique)
  then have "ulp q = u" by (simp add: ulp_def assms(4))
  then show ?thesis using assms(1) round_half_even_tieI[OF assms(5,6)] by (simp add: round_double_def)
qed

lemma ulp_pos: "0 < ulp q"
  by (simp add: ulp_def)

lemma ulp_divides:
  assumes "q \<noteq> 0" "\<bar>q\<bar> < 2 powi (k + 53)" "- 1074 \<le> k"
  shows "\<exists>m::int. of_int c * 2 powi k = of_int m * ulp q"
proof -
  define j where "j = max (exponent q) (- 1022) - 52"
  have "exponent q < k + 53" using assms(1,2) by (rule exponent_le)
  then have jk: "j \<le> k" using assms(3) by (simp add: j_def)
  have "(2::rat) powi k = 2 powi (k - j) * 2 powi j"
    by (simp add: power_int_add [symmetric])
  also have "(2::rat) powi (k - j) = of_int (2 ^ nat (k - j))"
    using jk by (simp add: power_int_nonneg_exp)
  finally have "of_int c * (2::rat) powi k = of_int (c * 2 ^ nat (k - j)) * ulp q"
    by (simp add: ulp_def j_def)
  then show ?thesis by blast
qed

lemma round_double_le_mult:
  assumes "q \<le> of_int m * ulp q"
  shows "round_double q \<le> of_int m * ulp q"
proof (cases "q = 0")
  case True
  with assms show ?thesis by (simp add: round_double_def)
next
  case False
  have "q / ulp q \<le> of_int m" using assms ulp_pos[of q] by (simp add: pos_divide_le_eq)
  then have "round_half_even (q / ulp q) \<le> m" by (rule round_half_even_le)
  then have "(of_int (round_half_even (q / ulp q)) :: rat) \<le> of_int m" by (simp only: of_int_le_iff)
  then show ?thesis using False ulp_pos[of q] by (simp add: round_double_def)
qed

lemma round_double_ge_mult:
  assumes "of_int m * ulp q \<le> q"
  shows "of_int m * ulp q \<le> round_double q"
proof (cases "q = 0")
  case True
  with assms show ?thesis by (simp add: round_double_def)
next
  case False
  have "of_int m \<le> q / ulp q" using assms ulp_pos[of q] by (simp add: pos_le_divide_eq)
  then have "m \<le> round_half_even (q / ulp q)" by (rule round_half_even_ge)
  then have "(of_int m :: rat) \<le> of_int (round_half_even (q / ulp q))" by (simp only: of_int_le_iff)
  then show ?thesis using False ulp_pos[of q] by (simp add: round_double_def)
qed

lemma round_double_le_grid:
  assumes "q \<le> of_int c * 2 powi k" "\<bar>q\<bar> < 2 powi (k + 53)" "- 1074 \<le> k"
  shows "round_double q \<le> of_int c * 2 powi k"
proof (cases "q = 0")
  case True
  with assms(1) show ?thesis by (simp add: round_double_def)
next
  case False
  from ulp_divides[OF False assms(2,3)] obtain m :: int
    where m: "of_int c * 2 powi k = of_int m * ulp q" by blast
  show ?thesis using round_double_le_mult[of q m] assms(1) by (simp add: m)
qed

lemma round_double_ge_grid:
  assumes "of_int c * 2 powi k \<le> q" "\<bar>q\<bar> < 2 powi (k + 53)" "- 1074 \<le> k"
  shows "of_int c * 2 powi k \<le> round_double q"
proof (cases "q = 0")
  case True
  with assms(1) show ?thesis by (simp add: round_double_def)
next
  case False
  from ulp_divides[OF False assms(2,3)] obtain m :: int
    where m: "of_int c * 2 powi k = of_int m * ulp q" by blast
  show ?thesis using round_double_ge_mult[of m q] assms(1) by (simp add: m)
qed

lemma round_double_nonneg: "0 \<le> q \<Longrightarrow> 0 \<le> round_double q"
  using round_double_ge_mult[of 0 q] by simp

lemma round_double_nonpos: "q \<le> 0 \<Longrightarrow> round_double q \<le> 0"
  using round_double_le_mult[of q 0] by simp

lemma round_double_0 [simp]: "round_double 0 = 0"
  by (simp add: round_double_def)

lemma round_double_le_100: 
  assumes "0 \<le> q" "q \<le> 100" shows "round_double q \<le> 100"
proof -
  have "round_double q \<le> of_int 25 * 2 powi 2"
    using assms by (intro round_double_le_grid) simp_all
  then show ?thesis by simp
qed

lemma round_double_le_1: 
  assumes "0 \<le> q" "q \<le> 1" shows "round_double q \<le> 1"
proof -
  have "round_double q \<le> of_int 1 * 2 powi 0"
    using assms by (intro round_double_le_grid) simp_all
  then show ?thesis by simp
qed

lemma round_double_abs_le_pow2:
  assumes "\<bar>q\<bar> \<le> 2 powi k" "- 1074 \<le> k"
  shows "\<bar>round_double q\<bar> \<le> 2 powi k"
proof -
  have lt: "\<bar>q\<bar> < 2 powi (k + 53)"
  proof -
    have "(2::rat) powi k < 2 powi (k + 53)" by (intro power_int_strict_increasing) simp_all
    with assms(1) show ?thesis by simp
  qed
  have "round_double q \<le> of_int 1 * 2 powi k"
    using assms lt by (intro round_double_le_grid) (simp_all add: abs_le_iff)
  moreover have "of_int (- 1) * 2 powi k \<le> round_double q"
    using assms lt by (intro round_double_ge_grid) (simp_all add: abs_le_iff)
  ultimately show ?thesis by (simp add: abs_le_iff)
qed

lemma max_double_ge: "2 powi 1023 \<le> max_double"
  by (simp add: max_double_def)

lemma int_truediv_in_range:
  assumes "b \<noteq> 0" "\<bar>of_int a / of_int b :: rat\<bar> \<le> 2 powi 1023"
  shows "int_truediv a b = Inr (round_double (of_int a / of_int b))"
proof -
  have "\<bar>round_double (of_int a / of_int b)\<bar> \<le> 2 powi 1023"
    using assms(2) by (rule round_double_abs_le_pow2) simp
  with max_double_ge have "\<not> max_double < \<bar>round_double (of_int a / of_int b)\<bar>" by linarith
  then show ?thesis using assms(1) by (simp add: int_truediv_def Let_def)
qed

lemma round_half_even_0 [simp]: "round_half_even 0 = 0"
  by (simp add: round_half_even_def)

lemma round1_0 [simp]: "round1 0 = 0"
  by (simp add: round1_def)

lemma round1_bounds:
  assumes "0 \<le> x" "x \<le> 100"
  shows "0 \<le> round1 x" "round1 x \<le> 100"
proof -
  have "of_int 0 \<le> x * 10" "x * 10 \<le> of_int 1000" using assms by simp_all
  then have "0 \<le> round_half_even (x * 10)" "round_half_even (x * 10) \<le> 1000"
    by (simp_all only: round_half_even_ge round_half_even_le)
  then have "(of_int 0 :: rat) \<le> of_int (round_half_even (x * 10))"
    "(of_int (round_half_even (x * 10)) :: rat) \<le> of_int 1000"
    by (simp_all only: of_int_le_iff)
  then have b: "0 \<le> (of_int (round_half_even (x * 10)) :: rat) / 10"
    "(of_int (round_half_even (x * 10)) :: rat) / 10 \<le> 100" by simp_all
  show "0 \<le> round1 x" unfolding round1_def using b(1) by (rule round_double_nonneg)
  show "round1 x \<le> 100" unfolding round1_def using b by (rule round_double_le_100)
qed

lemma percent_bounds:
  assumes "0 \<le> a" "a \<le> t" "0 < t"
  shows "\<exists>x r. int_truediv a t = Inr x \<and> py_round1 (float_mul x 100) = Fin r \<and> 0 \<le> r \<and> r \<le> 100"
proof -
  define q :: rat where "q = of_int a / of_int t"
  have q: "0 \<le> q" "q \<le> 1" using assms by (simp_all add: q_def)
  define x where "x = round_double q"
  have x: "0 \<le> x" "x \<le> 1" unfolding x_def using q by (simp_all only: round_double_nonneg round_double_le_1)
  have "\<bar>q\<bar> \<le> 2 powi 1023" using q by simp
  then have d: "int_truediv a t = Inr x" using assms(3) unfolding x_def q_def
    by (intro int_truediv_in_range) simp_all
  define y where "y = round_double (x * 100)"
  have "0 \<le> x * 100" "x * 100 \<le> 100" using x by simp_all
  then have y: "0 \<le> y" "y \<le> 100" unfolding y_def by (simp_all only: round_double_nonneg round_double_le_100)
  have "y \<le> max_double" using y(2) by (simp add: max_double_def)
  then have m: "float_mul x 100 = Fin y" using y(1) by (simp add: float_mul_def to_float_def y_def max_double_def)
  have "py_round1 (float_mul x 100) = Fin (round1 y)" by (simp add: m)
  with d round1_bounds[OF y] show ?thesis by blast
qed

text \<open>
  What \<open>round_double\<close> returns is a binary64 value next to its argument: an integer
  of at most 53 bits times the spacing, at most half a spacing away.
\<close>

lemma round_double_near: "\<bar>round_double q - q\<bar> \<le> ulp q / 2"
proof (cases "q = 0")
  case True
  then show ?thesis using ulp_pos[of q] by (simp add: round_double_def)
next
  case False
  define n where "n = round_half_even (q / ulp q)"
  have u: "0 < ulp q" by (rule ulp_pos)
  have "\<bar>of_int n - q / ulp q\<bar> \<le> 1 / 2" unfolding n_def by (rule round_half_even_near)
  then have "\<bar>of_int n - q / ulp q\<bar> * ulp q \<le> 1 / 2 * ulp q"
    using u by (intro mult_right_mono) simp_all
  moreover have "\<bar>of_int n - q / ulp q\<bar> * ulp q = \<bar>of_int n * ulp q - q\<bar>"
  proof -
    have "\<bar>of_int n - q / ulp q\<bar> * ulp q = \<bar>(of_int n - q / ulp q) * ulp q\<bar>"
      using u by (simp add: abs_mult)
    also have "(of_int n - q / ulp q) * ulp q = of_int n * ulp q - q"
      using u by (simp add: left_diff_distrib)
    finally show ?thesis .
  qed
  ultimately show ?thesis using False by (simp add: round_double_def n_def)
qed

lemma round_double_significand:
  assumes "q \<noteq> 0"
  shows "\<bar>round_half_even (q / ulp q)\<bar> \<le> 2 ^ 53"
proof -
  define e where "e = max (exponent q) (- 1022)"
  have u: "ulp q = 2 powi (e - 52)" by (simp add: ulp_def e_def)
  have p: "(2::rat) powi (e + 1) = 2 powi 53 * 2 powi (e - 52)"
  proof -
    have "e + 1 = 53 + (e - 52)" by simp
    then have "(2::rat) powi (e + 1) = 2 powi (53 + (e - 52))" by (rule arg_cong)
    also have "\<dots> = 2 powi 53 * 2 powi (e - 52)" by (rule power_int_add) simp
    finally show ?thesis .
  qed
  have "\<bar>q\<bar> < 2 powi (exponent q + 1)" using assms by (rule exponent_bounds)
  also have "\<dots> \<le> 2 powi (e + 1)" by (intro power_int_increasing) (simp_all add: e_def)
  finally have "\<bar>q\<bar> < 2 powi 53 * ulp q" by (simp only: p u)
  then have "\<bar>q\<bar> / ulp q < 2 powi 53" using ulp_pos[of q] by (simp only: pos_divide_less_eq)
  then have b: "\<bar>q / ulp q\<bar> \<le> of_int (2 ^ 53)" using ulp_pos[of q] by simp
  from b have b1: "q / ulp q \<le> of_int (2 ^ 53)" and b2: "- of_int (2 ^ 53) \<le> q / ulp q"
    by linarith+
  have "round_half_even (q / ulp q) \<le> 2 ^ 53" using b1 by (rule round_half_even_le)
  moreover have "of_int (- (2 ^ 53)) \<le> q / ulp q" using b2 by (simp only: of_int_minus)
  then have "- (2 ^ 53) \<le> round_half_even (q / ulp q)" by (rule round_half_even_ge)
  ultimately show ?thesis by linarith
qed

lemma round_double_exact:
  assumes "\<bar>of_int c * 2 powi k :: rat\<bar> < 2 powi (k + 53)" "- 1074 \<le> k"
  shows "round_double (of_int c * 2 powi k) = of_int c * 2 powi k"
proof (cases "of_int c * 2 powi k = (0::rat)")
  case True
  then show ?thesis by simp
next
  case False
  from ulp_divides[OF False assms] obtain m :: int
    where m: "of_int c * 2 powi k = of_int m * ulp (of_int c * 2 powi k)" by blast
  have "of_int c * 2 powi k / ulp (of_int c * 2 powi k) = (of_int m :: rat)"
    using ulp_pos[of "of_int c * 2 powi k"] by (subst m) simp
  then have "round_half_even (of_int c * 2 powi k / ulp (of_int c * 2 powi k)) = m"
    by simp
  then show ?thesis using False m by (simp add: round_double_def)
qed

lemma round_double_of_int:
  assumes "\<bar>n\<bar> < 2 ^ 53"
  shows "round_double (of_int n) = of_int n"
proof -
  have "(of_int \<bar>n\<bar> :: rat) < of_int (2 ^ 53)" using assms by (simp only: of_int_less_iff)
  then have "\<bar>of_int n * 2 powi 0 :: rat\<bar> < 2 powi (0 + 53)" by simp
  then have "round_double (of_int n * 2 powi 0) = of_int n * 2 powi 0"
    by (rule round_double_exact) simp
  then show ?thesis by simp
qed

lemma round_half_even_mono:
  assumes "x \<le> y"
  shows "round_half_even x \<le> round_half_even y"
proof (rule ccontr)
  assume "\<not> round_half_even x \<le> round_half_even y"
  then have gt: "round_half_even y + 1 \<le> round_half_even x" by simp
  then have "(of_int (round_half_even y + 1) :: rat) \<le> of_int (round_half_even x)"
    by (simp only: of_int_le_iff)
  then have o: "(of_int (round_half_even y) :: rat) + 1 \<le> of_int (round_half_even x)" by simp
  have "x = y" using o assms round_half_even_near[of x] round_half_even_near[of y] by linarith
  with gt show False by simp
qed

lemma round_half_even_minus: "round_half_even (- x) = - round_half_even x"
proof (cases "\<bar>of_int (round_half_even x) - x\<bar> < 1 / 2")
  case True
  then have "\<bar>of_int (- round_half_even x) - (- x)\<bar> < 1 / 2" by (simp add: abs_if split: if_splits)
  then show ?thesis by (rule round_half_even_eqI)
next
  case False
  with round_half_even_near[of x] have t: "\<bar>of_int (round_half_even x) - x\<bar> = 1 / 2" by simp
  then have "even (round_half_even x)" by (rule round_half_even_tie)
  then have "even (- round_half_even x)" by simp
  moreover have "\<bar>of_int (- round_half_even x) - (- x)\<bar> = 1 / 2"
    using t by (simp add: abs_if split: if_splits)
  ultimately show ?thesis by (simp only: round_half_even_tieI)
qed

lemma exponent_minus: "exponent (- q) = exponent q"
  by (simp add: exponent_def)

lemma ulp_minus: "ulp (- q) = ulp q"
  by (simp add: ulp_def exponent_minus)

lemma round_double_minus: "round_double (- q) = - round_double q"
  by (simp add: round_double_def ulp_minus round_half_even_minus)

lemma exponent_mono:
  assumes "0 < q1" "q1 \<le> q2"
  shows "exponent q1 \<le> exponent q2"
proof (rule ccontr)
  assume "\<not> exponent q1 \<le> exponent q2"
  then have "(2::rat) powi (exponent q2 + 1) \<le> 2 powi exponent q1"
    by (intro power_int_increasing) simp_all
  moreover have "2 powi exponent q1 \<le> \<bar>q1\<bar>" using assms(1) by (intro exponent_bounds) simp
  moreover have "\<bar>q2\<bar> < 2 powi (exponent q2 + 1)" using assms by (intro exponent_bounds) simp
  ultimately show False using assms by simp
qed

lemma round_double_mono_pos:
  assumes "0 < q1" "q1 \<le> q2"
  shows "round_double q1 \<le> round_double q2"
proof -
  define E1 where "E1 = max (exponent q1) (- 1022)"
  define E2 where "E2 = max (exponent q2) (- 1022)"
  have q2: "0 < q2" using assms by simp
  have le: "E1 \<le> E2" using exponent_mono[OF assms] by (simp add: E1_def E2_def)
  have u1: "ulp q1 = 2 powi (E1 - 52)" and u2: "ulp q2 = 2 powi (E2 - 52)"
    by (simp_all add: ulp_def E1_def E2_def)
  show ?thesis
  proof (cases "E1 = E2")
    case True
    then have u: "ulp q2 = ulp q1" by (simp add: u1 u2)
    have "q1 / ulp q1 \<le> q2 / ulp q1" using assms(2) ulp_pos[of q1] by (simp add: divide_right_mono)
    then have "round_half_even (q1 / ulp q1) \<le> round_half_even (q2 / ulp q1)"
      by (rule round_half_even_mono)
    then have "(of_int (round_half_even (q1 / ulp q1)) :: rat) \<le> of_int (round_half_even (q2 / ulp q1))"
      by (simp only: of_int_le_iff)
    then have "of_int (round_half_even (q1 / ulp q1)) * ulp q1
                 \<le> of_int (round_half_even (q2 / ulp q1)) * ulp q1"
      using ulp_pos[of q1] by (intro mult_right_mono) simp_all
    then show ?thesis using assms(1) q2 by (simp add: round_double_def u)
  next
    case False
    with le have lt: "E1 + 1 \<le> E2" by simp
    then have e2: "E2 = exponent q2" by (simp add: E1_def E2_def)
    have b1: "\<bar>q1\<bar> < 2 powi (exponent q1 + 1)" using assms(1) by (intro exponent_bounds) simp
    have "(2::rat) powi (exponent q1 + 1) \<le> 2 powi (E1 + 1)"
      by (intro power_int_increasing) (simp_all add: E1_def)
    with b1 have q1b: "\<bar>q1\<bar> < 2 powi (E1 + 1)" by simp
    have "(2::rat) powi (E1 + 1) \<le> 2 powi (E1 + 1 + 53)"
      by (intro power_int_increasing) simp_all
    with q1b have q1c: "\<bar>q1\<bar> < 2 powi (E1 + 1 + 53)" by simp
    have "round_double q1 \<le> of_int 1 * 2 powi (E1 + 1)"
      using q1b q1c by (intro round_double_le_grid) (simp_all add: E1_def)
    then have r1: "round_double q1 \<le> 2 powi (E1 + 1)" by simp
    have m: "(2::rat) powi (E1 + 1) \<le> 2 powi E2" using lt by (intro power_int_increasing) simp_all
    have b2: "2 powi E2 \<le> \<bar>q2\<bar>" "\<bar>q2\<bar> < 2 powi (E2 + 1)"
      unfolding e2 using q2 by (intro exponent_bounds, simp)+
    have "(2::rat) powi (E2 + 1) \<le> 2 powi (E2 + 53)" by (intro power_int_increasing) simp_all
    with b2(2) have q2c: "\<bar>q2\<bar> < 2 powi (E2 + 53)" by simp
    have "of_int 1 * 2 powi E2 \<le> round_double q2"
      using b2(1) q2 q2c by (intro round_double_ge_grid) (simp_all add: E2_def)
    then have r2: "2 powi E2 \<le> round_double q2" by simp
    from r1 m r2 show ?thesis by simp
  qed
qed

lemma round_double_mono:
  assumes "q1 \<le> q2"
  shows "round_double q1 \<le> round_double q2"
proof (cases "0 < q1")
  case True
  then show ?thesis using assms by (rule round_double_mono_pos)
next
  case False
  then have n1: "q1 \<le> 0" by simp
  show ?thesis
  proof (cases "0 \<le> q2")
    case True
    then show ?thesis using round_double_nonpos[OF n1] round_double_nonneg[of q2] by simp
  next
    case False
    then have "0 < - q2" "- q2 \<le> - q1" using assms by simp_all
    then have "round_double (- q2) \<le> round_double (- q1)" by (rule round_double_mono_pos)
    then show ?thesis by (simp add: round_double_minus)
  qed
qed

lemma round1_mono:
  assumes "x \<le> y"
  shows "round1 x \<le> round1 y"
proof -
  have "x * 10 \<le> y * 10" using assms by simp
  then have "round_half_even (x * 10) \<le> round_half_even (y * 10)" by (rule round_half_even_mono)
  then have "(of_int (round_half_even (x * 10)) :: rat) \<le> of_int (round_half_even (y * 10))"
    by (simp only: of_int_le_iff)
  then have "(of_int (round_half_even (x * 10)) :: rat) / 10 \<le> of_int (round_half_even (y * 10)) / 10"
    by simp
  then show ?thesis unfolding round1_def by (rule round_double_mono)
qed

lemma mb_of_kb_mono:
  assumes "a \<le> b"
  shows "mb_of_kb a \<le> mb_of_kb b"
proof -
  have "(of_int a :: rat) \<le> of_int b" using assms by (simp only: of_int_le_iff)
  then have "(of_int a :: rat) / 1024 \<le> of_int b / 1024" by simp
  then have "round_double (of_int a / 1024) \<le> round_double (of_int b / 1024)"
    by (rule round_double_mono)
  then show ?thesis unfolding mb_of_kb_def by (rule round1_mono)
qed

section \<open>Properties of the text operations, the rows and the sort\<close>

lemma score_loop_count:
  "score_loop cmd kws s = s + int (length (filter (\<lambda>kw. py_in (py_lower kw) (py_lower cmd)) kws))"
  by (induction kws arbitrary: s) simp_all

lemma map_eq_ci_equal: "map lower_char a = map lower_char b \<longleftrightarrow> ci_equal a b"
  unfolding ci_equal_def
proof (induction a arbitrary: b)
  case Nil
  then show ?case by simp
next
  case (Cons x a)
  then show ?case by (cases b) simp_all
qed

lemma py_in_lower_iff: "py_in (py_lower kw) (py_lower cmd) \<longleftrightarrow> ci_occurs kw cmd"
proof
  assume "py_in (py_lower kw) (py_lower cmd)"
  then have "sublist (map lower_char kw) (map lower_char cmd)" by (simp add: py_in_def py_lower_def)
  then obtain w where w: "sublist w cmd" "map lower_char kw = map lower_char w"
    by (rule sublist_map_rightE [elim_format]) blast
  then have "ci_equal w kw" by (simp add: map_eq_ci_equal [symmetric])
  with w(1) show "ci_occurs kw cmd" unfolding ci_occurs_def by blast
next
  assume "ci_occurs kw cmd"
  then obtain w where w: "sublist w cmd" "ci_equal w kw" unfolding ci_occurs_def by blast
  then have "map lower_char w = map lower_char kw" by (simp add: map_eq_ci_equal)
  moreover have "sublist (map lower_char w) (map lower_char cmd)" using w(1) by (rule map_mono_sublist)
  ultimately show "py_in (py_lower kw) (py_lower cmd)" by (simp add: py_in_def py_lower_def)
qed

lemma py_split_sep_parts:
  "w \<in> set (py_split_sep sep s) \<Longrightarrow> set w \<subseteq> set s - {sep}"
proof (induction s arbitrary: w)
  case Nil
  then show ?case by simp
next
  case (Cons c s)
  show ?case
  proof (cases "c = sep")
    case True
    with Cons show ?thesis by auto
  next
    case False
    obtain v vs where v: "py_split_sep sep s = v # vs"
      by (cases "py_split_sep sep s") (cases s, simp_all split: if_splits list.splits)
    with Cons.prems False have "w = c # v \<or> w \<in> set vs" by simp
    then show ?thesis
    proof
      assume "w = c # v"
      moreover have "set v \<subseteq> set s - {sep}" using Cons.IH[of v] v by simp
      ultimately show ?thesis using False by auto
    next
      assume "w \<in> set vs"
      then have "set w \<subseteq> set s - {sep}" using Cons.IH[of w] v by simp
      then show ?thesis by auto
    qed
  qed
qed

lemma py_strip_all_space:
  assumes "\<forall>c\<in>set w. py_isspace c"
  shows "py_strip w = []"
  unfolding py_strip_def using assms by (auto dest: set_dropWhileD)

lemma cli_keywords_blank:
  assumes "f \<noteq> []" "\<forall>c\<in>set f. c = CHR '','' \<or> py_isspace c"
  shows "cli_keywords (Some f) = Some []"
proof -
  have "py_strip w = []" if "w \<in> set (py_split_sep CHR '','' f)" for w
  proof -
    have "set w \<subseteq> set f - {CHR '',''}" using that by (rule py_split_sep_parts)
    with assms(2) have "\<forall>c\<in>set w. py_isspace c" by auto
    then show ?thesis by (rule py_strip_all_space)
  qed
  then have "filter (\<lambda>x. py_strip x \<noteq> []) (py_split_sep CHR '','' f) = []"
    by (simp add: filter_empty_conv)
  then show ?thesis using assms(1) by (simp add: cli_keywords_def)
qed

lemma int_truediv_rss:
  assumes "rss_in_range kb"
  shows "int_truediv kb 1024 = Inr (round_double (of_int kb / 1024))"
proof -
  have "\<bar>kb\<bar> \<le> 2 ^ 1033" using assms by (simp add: rss_in_range_def)
  then have "(of_int \<bar>kb\<bar> :: rat) \<le> of_int (2 ^ 1033)" by (simp only: of_int_le_iff)
  then have "\<bar>of_int kb :: rat\<bar> \<le> 2 ^ 1033" by simp
  then have "\<bar>of_int kb / of_int 1024 :: rat\<bar> \<le> 2 powi 1023" by simp
  then have "int_truediv kb 1024 = Inr (round_double (of_int kb / of_int 1024))"
    by (intro int_truediv_in_range) simp_all
  then show ?thesis by simp
qed

lemma watch_java_rows_in_range:
  "\<forall>p\<in>set pids. rss_in_range (get_rss_kb env p) \<Longrightarrow>
   watch_java_rows env kws pids rows = Inr (rows @ map (live_row env kws) pids)"
proof (induction pids arbitrary: rows)
  case Nil
  then show ?case by simp
next
  case (Cons p pids)
  have "int_truediv (get_rss_kb env p) 1024 = Inr (round_double (of_int (get_rss_kb env p) / 1024))"
    using Cons.prems by (intro int_truediv_rss) simp
  moreover have "\<forall>q\<in>set pids. rss_in_range (get_rss_kb env q)" using Cons.prems by simp
  ultimately show ?case using Cons.IH by (simp add: live_row_def mb_of_kb_def Let_def)
qed

lemma main_details_in_range:
  "\<forall>p\<in>set pids. rss_in_range (get_rss_kb env p) \<Longrightarrow>
   main_details env pids details = Inr (details @ map (snapshot_detail env) pids)"
proof (induction pids arbitrary: details)
  case Nil
  then show ?case by simp
next
  case (Cons p pids)
  have "int_truediv (get_rss_kb env p) 1024 = Inr (round_double (of_int (get_rss_kb env p) / 1024))"
    using Cons.prems by (intro int_truediv_rss) simp
  moreover have "\<forall>q\<in>set pids. rss_in_range (get_rss_kb env q)" using Cons.prems by simp
  moreover have "get_cmdline env p = (case read_cmdline env p of Inl e \<Rightarrow> []
       | Inr bs \<Rightarrow> decode_ignore env (bytes_strip (bytes_replace_nul bs)))"
    by (simp add: get_cmdline_def get_cmdline_try_def split: sum.splits)
  ultimately show ?case using Cons.IH by (simp add: snapshot_detail_def mb_of_kb_def Let_def)
qed

lemma mset_py_sort_reverse: "mset (py_sort_reverse key xs) = mset xs"
  by (simp add: py_sort_reverse_def)

lemma set_py_sort_reverse: "set (py_sort_reverse key xs) = set xs"
  by (simp add: py_sort_reverse_def)

lemma length_py_sort_reverse: "length (py_sort_reverse key xs) = length xs"
  by (simp add: py_sort_reverse_def)

lemma py_sort_reverse_descending:
  "sorted_wrt (\<lambda>a b. key b \<le> key a) (py_sort_reverse key xs)"
proof -
  have "sorted (map key (sort_key key (rev xs)))" by (rule sorted_sort_key)
  then have "sorted_wrt (\<lambda>a b. key a \<le> key b) (sort_key key (rev xs))"
    by (simp only: sorted_map)
  then show ?thesis by (simp add: py_sort_reverse_def sorted_wrt_rev)
qed

lemma py_sort_reverse_stable:
  "filter (\<lambda>y. key y = k) (py_sort_reverse key xs) = filter (\<lambda>y. key y = k) xs"
proof -
  have "filter (\<lambda>y. key y = k) (py_sort_reverse key xs)
        = rev (filter (\<lambda>y. key y = k) (sort_key key (rev xs)))"
    by (simp add: py_sort_reverse_def rev_filter)
  also have "\<dots> = rev (filter (\<lambda>y. key y = k) (rev xs))" by (simp only: sort_key_stable)
  also have "\<dots> = filter (\<lambda>y. key y = k) xs" by (simp add: rev_filter)
  finally show ?thesis .
qed

lemma sorted_wrt_strict_first:
  fixes f :: "'a \<Rightarrow> 'b::linorder"
  assumes "sorted_wrt (\<lambda>a b. f b \<le> f a) xs" "i < length xs" "j < length xs" "f (xs ! j) < f (xs ! i)"
  shows "i < j"
proof (rule ccontr)
  assume "\<not> i < j"
  then have "j = i \<or> j < i" by auto
  then show False
  proof
    assume "j = i" with assms(4) show False by simp
  next
    assume "j < i"
    with assms(1,2) have "f (xs ! i) \<le> f (xs ! j)" by (simp add: sorted_wrt_iff_nth_less)
    with assms(4) show False by simp
  qed
qed

section \<open>Memory and disk percentages\<close>

lemma mem_avail_spec: "mem_avail mem = spec_available mem"
  by (simp add: mem_avail_def spec_available_def dict_get_def counter_def split: option.splits)

lemma get_mem_percent_counters:
  assumes "meminfo_counters env = Inr mem"
  shows "get_mem_percent env =
           (if mem_total mem = 0 then Fin 0
            else (case int_truediv (mem_total mem - spec_available mem) (mem_total mem) of
                    Inl e \<Rightarrow> Fin 0
                  | Inr x \<Rightarrow> py_round1 (float_mul x 100)))"
  using assms
  by (simp add: get_mem_percent_def get_mem_percent_try_def mem_avail_spec Let_def split: sum.splits)

lemma get_mem_percent_quotient_overflow:
  assumes "meminfo_counters env = Inr mem" "mem_total mem \<noteq> 0"
    and "max_double < \<bar>round_double (of_int (mem_total mem - spec_available mem)
                                      / of_int (mem_total mem))\<bar>"
  shows "get_mem_percent env = Fin 0"
  using assms by (simp add: get_mem_percent_counters int_truediv_def Let_def)

lemma get_mem_percent_unreadable:
  "read_meminfo env = Inl e \<Longrightarrow> get_mem_percent env = Fin 0"
  by (simp add: get_mem_percent_def get_mem_percent_try_def meminfo_counters_def)

lemma get_mem_percent_malformed:
  "meminfo_counters env = Inl e \<Longrightarrow> get_mem_percent env = Fin 0"
  by (simp add: get_mem_percent_def get_mem_percent_try_def)

lemma get_mem_percent_formula:
  assumes "meminfo_counters env = Inr mem" "0 < mem_total mem"
    and "\<bar>mem_total mem - spec_available mem\<bar> \<le> 2 ^ 1023 * mem_total mem"
  shows "get_mem_percent env = spec_used_percent (mem_total mem) (spec_available mem)"
proof -
  define t where "t = mem_total mem"
  define a where "a = mem_total mem - spec_available mem"
  have t: "0 < t" using assms(2) by (simp add: t_def)
  have "\<bar>a\<bar> \<le> 2 ^ 1023 * t" using assms(3) by (simp add: a_def t_def)
  then have "(of_int \<bar>a\<bar> :: rat) \<le> of_int (2 ^ 1023 * t)" by (simp only: of_int_le_iff)
  then have "\<bar>of_int a :: rat\<bar> \<le> 2 ^ 1023 * of_int t" by simp
  then have "\<bar>of_int a / of_int t :: rat\<bar> \<le> 2 powi 1023"
    using t by (simp add: pos_divide_le_eq)
  then have "int_truediv a t = Inr (round_double (of_int a / of_int t))"
    using t by (intro int_truediv_in_range) simp_all
  then show ?thesis using t
    by (simp add: get_mem_percent_counters[OF assms(1)] spec_used_percent_def a_def t_def)
qed

lemma mem_percent_in_range:
  assumes "meminfo_counters env = Inr mem" "0 < mem_total mem"
    and "0 \<le> spec_available mem" "spec_available mem \<le> mem_total mem"
  shows "\<exists>r. get_mem_percent env = Fin r \<and> 0 \<le> r \<and> r \<le> 100"
proof -
  have "0 \<le> mem_total mem - spec_available mem" "mem_total mem - spec_available mem \<le> mem_total mem"
    using assms(3,4) by simp_all
  from percent_bounds[OF this assms(2)] obtain x r
    where "int_truediv (mem_total mem - spec_available mem) (mem_total mem) = Inr x"
      "py_round1 (float_mul x 100) = Fin r" "0 \<le> r" "r \<le> 100" by blast
  then show ?thesis using assms(2) by (simp add: get_mem_percent_counters[OF assms(1)])
qed

lemma counters_typical: "meminfo_counters env_typical = Inr (meminfo_counts 1000 200)"
  by (simp add: meminfo_counters_def env_typical_def env_down_def meminfo_text_def meminfo_counts_def
      py_splitlines_def is_linebreak_def py_strip_def py_isspace_def py_split_def py_int_def
      unsigned_int_def digit_of_def Let_def)

lemma counters_over: "meminfo_counters env_over = Inr (meminfo_counts 100 200)"
  by (simp add: meminfo_counters_def env_over_def env_down_def meminfo_text_def meminfo_counts_def
      py_splitlines_def is_linebreak_def py_strip_def py_isspace_def py_split_def py_int_def
      unsigned_int_def digit_of_def Let_def)

lemma counters_quarter: "meminfo_counters env_quarter = Inr (meminfo_counts 400 399)"
  by (simp add: meminfo_counters_def env_quarter_def env_down_def meminfo_text_def meminfo_counts_def
      py_splitlines_def is_linebreak_def py_strip_def py_isspace_def py_split_def py_int_def
      unsigned_int_def digit_of_def Let_def)

lemma counters_zero: "meminfo_counters env_zero = Inr (meminfo_counts 0 0)"
  by (simp add: meminfo_counters_def env_zero_def env_down_def meminfo_text_def meminfo_counts_def
      py_splitlines_def is_linebreak_def py_strip_def py_isspace_def py_split_def py_int_def
      unsigned_int_def digit_of_def Let_def)

lemma counters_old: "meminfo_counters env_old = Inr meminfo_old_counts"
  by (simp add: meminfo_counters_def env_old_def env_down_def meminfo_old_text_def meminfo_old_counts_def
      py_splitlines_def is_linebreak_def py_strip_def py_isspace_def py_split_def py_int_def
      unsigned_int_def digit_of_def Let_def)

lemma counters_malformed: "meminfo_counters env_malformed = Inl IndexError"
  by (simp add: meminfo_counters_def env_malformed_def env_down_def
      py_splitlines_def is_linebreak_def py_strip_def py_isspace_def py_split_def Let_def)

lemma meminfo_counts_total [simp]: "mem_total (meminfo_counts t a) = t"
  by (simp add: mem_total_def dict_get_def meminfo_counts_def)

lemma meminfo_counts_available [simp]: "spec_available (meminfo_counts t a) = a"
  by (simp add: spec_available_def meminfo_counts_def)

lemma meminfo_old_total [simp]: "mem_total meminfo_old_counts = 1000"
  by (simp add: mem_total_def dict_get_def meminfo_old_counts_def)

lemma meminfo_old_available [simp]: "spec_available meminfo_old_counts = 200"
  by (simp add: spec_available_def meminfo_old_counts_def counter_def)

lemma rd_four_fifths: "round_double (4 / 5) = 3602879701896397 / 4503599627370496"
proof -
  have "round_double (4 / 5) = of_int 7205759403792794 * 2 powi (- 53)"
    by (rule round_double_eqI[where e = "- 1"]) simp_all
  then show ?thesis by simp
qed

lemma rd_eighty: "round_double (3602879701896397 / 4503599627370496 * 100) = 80"
proof -
  have "round_double (3602879701896397 / 4503599627370496 * 100) = of_int 5629499534213120 * 2 powi (- 46)"
    by (rule round_double_eqI[where e = 6]) simp_all
  then show ?thesis by simp
qed

lemma round1_eighty: "round1 80 = 80"
proof -
  have "round_half_even (80 * 10) = 800" by (rule round_half_even_eqI) simp
  moreover have "round_double (of_int 80) = of_int 80" by (rule round_double_of_int) simp
  ultimately show ?thesis by (simp add: round1_def)
qed

lemma to_float_fin: "\<bar>r\<bar> \<le> max_double \<Longrightarrow> to_float r = Fin r"
  by (simp add: to_float_def abs_le_iff not_less)

lemma float_mul_eighty: "float_mul (3602879701896397 / 4503599627370496) 100 = Fin 80"
proof -
  have "to_float 80 = Fin 80" by (rule to_float_fin) (simp add: max_double_def)
  then show ?thesis unfolding float_mul_def by (simp only: rd_eighty)
qed

lemma used_percent_typical: "spec_used_percent 1000 200 = Fin 80"
proof -
  have "round_double (of_int (1000 - 200) / of_int 1000) = 3602879701896397 / 4503599627370496"
    using rd_four_fifths by simp
  then show ?thesis unfolding spec_used_percent_def
    by (simp only: float_mul_eighty py_round1.simps round1_eighty)
qed

lemma round1_minus_hundred: "round1 (- 100) = - 100"
proof -
  have "round_half_even (- 100 * 10) = - 1000" by (rule round_half_even_eqI) simp
  moreover have "round_double (of_int (- 100)) = of_int (- 100)" by (rule round_double_of_int) simp
  ultimately show ?thesis by (simp add: round1_def)
qed

lemma used_percent_over: "spec_used_percent 100 200 = Fin (- 100)"
proof -
  have "round_double (of_int (- 1)) = of_int (- 1)" by (rule round_double_of_int) simp
  then have 1: "round_double (of_int (100 - 200) / of_int 100) = - 1" by simp
  have "round_double (of_int (- 100)) = of_int (- 100)" by (rule round_double_of_int) simp
  then have 2: "round_double (- 1 * 100) = - 100" by simp
  have "to_float (- 100) = Fin (- 100)" by (rule to_float_fin) (simp add: max_double_def)
  then have 3: "float_mul (- 1) 100 = Fin (- 100)" unfolding float_mul_def by (simp only: 2)
  show ?thesis unfolding spec_used_percent_def
    by (simp only: 1 3 py_round1.simps round1_minus_hundred)
qed

lemma rd_400th: "round_double (1 / 400) = 5764607523034235 / 2305843009213693952"
proof -
  have "round_double (1 / 400) = of_int 5764607523034235 * 2 powi (- 61)"
    by (rule round_double_eqI[where e = "- 9"]) simp_all
  then show ?thesis by simp
qed

lemma rd_quarter: "round_double (5764607523034235 / 2305843009213693952 * 100) = 1 / 4"
proof -
  have "round_double (5764607523034235 / 2305843009213693952 * 100)
          = of_int 4503599627370496 * 2 powi (- 54)"
    by (rule round_double_eqI[where e = "- 2"]) simp_all
  then show ?thesis by simp
qed

lemma float_mul_quarter: "float_mul (round_double (1 / 400)) 100 = Fin (1 / 4)"
proof -
  have "to_float (1 / 4) = Fin (1 / 4)" by (rule to_float_fin) (simp add: max_double_def)
  then show ?thesis unfolding float_mul_def by (simp only: rd_400th rd_quarter)
qed

lemma rd_fifth: "round_double (2 / 10) = 3602879701896397 / 18014398509481984"
proof -
  have "round_double (2 / 10) = of_int 7205759403792794 * 2 powi (- 55)"
    by (rule round_double_eqI[where e = "- 3"]) simp_all
  then show ?thesis by simp
qed

lemma rd_three_tenths: "round_double (3 / 10) = 5404319552844595 / 18014398509481984"
proof -
  have "round_double (3 / 10) = of_int 5404319552844595 * 2 powi (- 54)"
    by (rule round_double_eqI[where e = "- 2"]) simp_all
  then show ?thesis by simp
qed

lemma round1_quarter: "round1 (1 / 4) = round_double (2 / 10)"
proof -
  have "round_half_even (1 / 4 * 10) = 2" by (rule round_half_even_tieI) simp_all
  then show ?thesis by (simp add: round1_def)
qed

lemma truediv_400th: "int_truediv 1 400 = Inr (round_double (1 / 400))"
proof -
  have "int_truediv 1 400 = Inr (round_double (of_int 1 / of_int 400))"
    by (rule int_truediv_in_range) simp_all
  then show ?thesis by simp
qed

lemma used_percent_quarter: "spec_used_percent 400 399 = Fin (round_double (2 / 10))"
proof -
  have "round_double (of_int (400 - 399) / of_int 400) = round_double (1 / 400)" by simp
  then show ?thesis unfolding spec_used_percent_def
    by (simp only: float_mul_quarter py_round1.simps round1_quarter)
qed

lemma half_away_quarter: "spec_round1_half_away (1 / 4) = round_double (3 / 10)"
  by (simp add: spec_round1_half_away_def round_half_away_def)

lemma round1_nearest: "nearest_tenth_even p (round_half_even (p * 10))"
proof -
  define n where "n = round_half_even (p * 10)"
  have near: "\<bar>of_int n - p * 10\<bar> \<le> 1 / 2" unfolding n_def by (rule round_half_even_near)
  have tie: "\<bar>of_int n - p * 10\<bar> = 1 / 2 \<Longrightarrow> even n" unfolding n_def by (rule round_half_even_tie)
  have eq: "\<bar>of_int n / 10 - p\<bar> = \<bar>of_int n - p * 10\<bar> / 10"
    by (simp add: abs_if field_simps)
  have "\<bar>of_int n / 10 - p\<bar> \<le> 1 / 20" using near by (simp add: eq)
  moreover have "\<bar>of_int n / 10 - p\<bar> < 1 / 20 \<or> even n"
  proof (cases "\<bar>of_int n - p * 10\<bar> = 1 / 2")
    case True
    then show ?thesis using tie by simp
  next
    case False
    with near have "\<bar>of_int n - p * 10\<bar> < 1 / 2" by simp
    then show ?thesis by (simp add: eq)
  qed
  ultimately show ?thesis unfolding nearest_tenth_even_def n_def by simp
qed

lemma nearest_tenth_even_unique:
  assumes "nearest_tenth_even p n"
  shows "n = round_half_even (p * 10)"
proof -
  have eq: "\<bar>of_int n / 10 - p\<bar> = \<bar>of_int n - p * 10\<bar> / 10"
    by (simp add: abs_if field_simps)
  from assms have le: "\<bar>of_int n - p * 10\<bar> \<le> 1 / 2"
    and or: "\<bar>of_int n - p * 10\<bar> < 1 / 2 \<or> even n"
    by (auto simp add: nearest_tenth_even_def eq)
  show ?thesis
  proof (cases "\<bar>of_int n - p * 10\<bar> < 1 / 2")
    case True
    then show ?thesis by (simp add: round_half_even_eqI)
  next
    case False
    with le or have "\<bar>of_int n - p * 10\<bar> = 1 / 2" "even n" by simp_all
    then show ?thesis by (simp add: round_half_even_tieI)
  qed
qed

lemma get_disk_percent_usage:
  assumes "disk_usage env path = Inr (tot, used, fr)"
  shows "get_disk_percent env path =
           (case int_truediv used tot of Inl e \<Rightarrow> Fin 0 | Inr x \<Rightarrow> py_round1 (float_mul x 100))"
  using assms by (simp add: get_disk_percent_def get_disk_percent_try_def split: sum.splits)

text \<open>
  Claim C1. \<open>get_mem_percent\<close> returns 0 when \<^verbatim>\<open>/proc/meminfo\<close> cannot be read, when a
  line of it is malformed, and when the total is 0. When the total is positive it
  returns \<^verbatim>\<open>round((total - available) / total * 100, 1)\<close>, where available is
  MemAvailable if that counter is present, otherwise MemFree + Buffers + Cached (an
  absent one counting 0), and 0 when all are absent. The last part is stated for
  counters whose quotient is a float, which holds up to \<open>2 ^ 1023\<close> times the total
  (\<open>get_mem_percent_quotient_overflow\<close> is the case beyond: the OverflowError of the
  division is caught and the result is 0).
\<close>
theorem get_mem_percent_spec:
  "(read_meminfo env = Inl e \<longrightarrow> get_mem_percent env = Fin 0) \<and>
   (meminfo_counters env = Inl e \<longrightarrow> get_mem_percent env = Fin 0) \<and>
   (meminfo_counters env = Inr mem \<and> mem_total mem = 0 \<longrightarrow> get_mem_percent env = Fin 0) \<and>
   (meminfo_counters env = Inr mem \<and> 0 < mem_total mem
      \<and> \<bar>mem_total mem - spec_available mem\<bar> \<le> 2 ^ 1023 * mem_total mem
    \<longrightarrow> get_mem_percent env = spec_used_percent (mem_total mem) (spec_available mem))"
  using get_mem_percent_unreadable[of env e] get_mem_percent_malformed[of env e]
    get_mem_percent_counters[of env mem] get_mem_percent_formula[of env mem]
  by auto

theorem get_mem_percent_spec_witness:
  "read_meminfo env_down = Inl OSError \<and> get_mem_percent env_down = Fin 0 \<and>
   meminfo_counters env_malformed = Inl IndexError \<and> get_mem_percent env_malformed = Fin 0 \<and>
   meminfo_counters env_zero = Inr (meminfo_counts 0 0) \<and> get_mem_percent env_zero = Fin 0 \<and>
   meminfo_counters env_typical = Inr (meminfo_counts 1000 200)
     \<and> get_mem_percent env_typical = Fin 80 \<and>
   meminfo_counters env_old = Inr meminfo_old_counts \<and> get_mem_percent env_old = Fin 80"
  using get_mem_percent_spec[of env_down OSError "meminfo_counts 0 0"]
    get_mem_percent_spec[of env_malformed IndexError "meminfo_counts 0 0"]
    get_mem_percent_spec[of env_zero OSError "meminfo_counts 0 0"]
    get_mem_percent_spec[of env_typical OSError "meminfo_counts 1000 200"]
    get_mem_percent_spec[of env_old OSError meminfo_old_counts]
  by (simp add: counters_malformed counters_zero counters_typical counters_old
      used_percent_typical env_down_def)

text \<open>
  With a total of 100 kB and 200 kB available, both non-negative, the result is
  \<open>-100.0\<close>: nothing in the function keeps the percentage between 0 and 100 when
  more is available than the total.
\<close>
theorem percent_range_counterexample:
  "meminfo_counters env_over = Inr (meminfo_counts 100 200) \<and>
   0 < mem_total (meminfo_counts 100 200) \<and> 0 \<le> spec_available (meminfo_counts 100 200) \<and>
   get_mem_percent env_over = Fin (- 100) \<and> \<not> in_percent_range (get_mem_percent env_over)"
proof -
  have "get_mem_percent env_over = spec_used_percent 100 200"
    using get_mem_percent_formula[OF counters_over] by simp
  then show ?thesis by (simp add: counters_over used_percent_over in_percent_range_def)
qed

text \<open>
  Claim C2, amended. For counters with total > 0 and 0 \<open>\<le>\<close> available \<open>\<le>\<close> total,
  the value of \<open>get_mem_percent\<close> is
  \<^verbatim>\<open>round((total - available) / total * 100, 1)\<close> and lies in the interval from 0
  to 100.
\<close>
theorem percent_range_amended:
  assumes "meminfo_counters env = Inr mem" "0 < mem_total mem"
    and "0 \<le> spec_available mem" "spec_available mem \<le> mem_total mem"
  shows "get_mem_percent env = spec_used_percent (mem_total mem) (spec_available mem)
         \<and> in_percent_range (get_mem_percent env)"
proof -
  have "\<bar>mem_total mem - spec_available mem\<bar> \<le> 1 * mem_total mem" using assms(3,4) by simp
  also have "\<dots> \<le> 2 ^ 1023 * mem_total mem" using assms(2) by (intro mult_right_mono) simp_all
  finally have "get_mem_percent env = spec_used_percent (mem_total mem) (spec_available mem)"
    using assms(1,2) by (intro get_mem_percent_formula)
  moreover have "in_percent_range (get_mem_percent env)"
    using mem_percent_in_range[OF assms] by (auto simp: in_percent_range_def)
  ultimately show ?thesis by simp
qed

theorem percent_range_amended_witness:
  "meminfo_counters env_typical = Inr (meminfo_counts 1000 200) \<and>
   get_mem_percent env_typical = Fin 80 \<and> in_percent_range (get_mem_percent env_typical)"
  using percent_range_amended[OF counters_typical]
  by (simp add: counters_typical used_percent_typical in_percent_range_def)

text \<open>
  With a total of 400 kB and 399 kB available the unrounded percentage is the float
  0.25 exactly. \<open>get_mem_percent\<close> returns the float 0.2; rounding half away from zero
  gives 0.3.
\<close>
theorem half_away_counterexample:
  "meminfo_counters env_quarter = Inr (meminfo_counts 400 399) \<and>
   int_truediv (400 - 399) 400 = Inr (round_double (1 / 400)) \<and>
   float_mul (round_double (1 / 400)) 100 = Fin (1 / 4) \<and>
   get_mem_percent env_quarter = Fin (round_double (2 / 10)) \<and>
   spec_round1_half_away (1 / 4) = round_double (3 / 10) \<and>
   get_mem_percent env_quarter \<noteq> Fin (spec_round1_half_away (1 / 4))"
proof -
  have "get_mem_percent env_quarter = spec_used_percent 400 399"
    using get_mem_percent_formula[OF counters_quarter] by simp
  then have g: "get_mem_percent env_quarter = Fin (round_double (2 / 10))"
    by (simp only: used_percent_quarter)
  have ne: "round_double (2 / 10) \<noteq> round_double (3 / 10)"
    by (simp only: rd_fifth rd_three_tenths)
  show ?thesis using truediv_400th ne
    by (simp add: counters_quarter float_mul_quarter g half_away_quarter)
qed

text \<open>
  Claim C7, amended. The percentages of \<open>get_mem_percent\<close> and \<open>get_disk_percent\<close>
  are rounded to one decimal place half to even: the result is the float nearest to
  \<open>n / 10\<close>, where \<open>n / 10\<close> is a one-decimal value nearest to the exact value of the
  unrounded float, and \<open>n\<close> is even when two such values are equally near.
  (\<open>nearest_tenth_even_unique\<close>: there is one such \<open>n\<close>.)
\<close>
theorem rounding_half_even:
  "(meminfo_counters env = Inr mem \<and> mem_total mem \<noteq> 0
      \<and> int_truediv (mem_total mem - spec_available mem) (mem_total mem) = Inr x
      \<and> float_mul x 100 = Fin p
    \<longrightarrow> (\<exists>n. nearest_tenth_even p n \<and> get_mem_percent env = Fin (round_double (of_int n / 10))))
   \<and>
   (disk_usage env path = Inr (tot, used, fr) \<and> int_truediv used tot = Inr y
      \<and> float_mul y 100 = Fin d
    \<longrightarrow> (\<exists>n. nearest_tenth_even d n
            \<and> get_disk_percent env path = Fin (round_double (of_int n / 10))))"
proof (intro conjI impI)
  assume h: "meminfo_counters env = Inr mem \<and> mem_total mem \<noteq> 0
      \<and> int_truediv (mem_total mem - spec_available mem) (mem_total mem) = Inr x
      \<and> float_mul x 100 = Fin p"
  then have "get_mem_percent env = Fin (round1 p)"
    by (simp add: get_mem_percent_counters[of env mem])
  then have "nearest_tenth_even p (round_half_even (p * 10))
      \<and> get_mem_percent env = Fin (round_double (of_int (round_half_even (p * 10)) / 10))"
    using round1_nearest[of p] by (simp add: round1_def)
  then show "\<exists>n. nearest_tenth_even p n \<and> get_mem_percent env = Fin (round_double (of_int n / 10))"
    by blast
next
  assume h: "disk_usage env path = Inr (tot, used, fr) \<and> int_truediv used tot = Inr y
      \<and> float_mul y 100 = Fin d"
  then have "get_disk_percent env path = Fin (round1 d)"
    by (simp add: get_disk_percent_usage[of env path tot used fr])
  then have "nearest_tenth_even d (round_half_even (d * 10))
      \<and> get_disk_percent env path = Fin (round_double (of_int (round_half_even (d * 10)) / 10))"
    using round1_nearest[of d] by (simp add: round1_def)
  then show "\<exists>n. nearest_tenth_even d n
      \<and> get_disk_percent env path = Fin (round_double (of_int n / 10))"
    by blast
qed

theorem rounding_half_even_witness:
  "(\<exists>n. nearest_tenth_even (1 / 4) n
        \<and> get_mem_percent env_quarter = Fin (round_double (of_int n / 10)))
   \<and> (\<exists>n. nearest_tenth_even (1 / 4) n
        \<and> get_disk_percent env_quarter ''/'' = Fin (round_double (of_int n / 10)))"
proof -
  have d: "disk_usage env_quarter ''/'' = Inr (400, 1, 399)"
    by (simp add: env_quarter_def)
  show ?thesis
    using rounding_half_even[of env_quarter "meminfo_counts 400 399" "round_double (1 / 400)"
        "1 / 4" "''/''" 400 1 399 "round_double (1 / 400)" "1 / 4"]
      truediv_400th
    by (simp add: counters_quarter float_mul_quarter d)
qed

section \<open>Scores and the shortened command line\<close>

lemma shorten_short: "length cmd < 120 \<Longrightarrow> shorten cmd = cmd"
  by (simp add: shorten_def)

lemma shorten_long:
  "120 \<le> length cmd \<Longrightarrow> shorten cmd = take 117 cmd @ ''...'' \<and> length (shorten cmd) = 120"
  by (simp add: shorten_def)

lemma shorten_length: "length (shorten cmd) \<le> 120"
  by (simp add: shorten_def)

text \<open>
  Claim C5. The score of a command line is the number of entries of the keyword list
  that occur in it as a case-insensitive substring. A keyword list given by the caller
  is the list used, and the default list is used only when none is given. The score of
  ``MyForgeServer'' is 1 for the list [forge] and 0 for the list [minecraft].
\<close>
theorem score_counts_keywords:
  "score_loop cmd kws 0 = int (length (filter (\<lambda>kw. ci_occurs kw cmd) kws)) \<and>
   watch_java_keywords (Some kws) = kws \<and>
   watch_java_keywords None = default_keywords \<and>
   score_loop ''MyForgeServer'' [''forge''] 0 = 1 \<and>
   score_loop ''MyForgeServer'' [''minecraft''] 0 = 0"
proof -
  have "score_loop cmd kws 0 = int (length (filter (\<lambda>kw. ci_occurs kw cmd) kws))"
    by (simp add: score_loop_count py_in_lower_iff)
  moreover have "score_loop ''MyForgeServer'' [''forge''] 0 = 1" by code_simp
  moreover have "score_loop ''MyForgeServer'' [''minecraft''] 0 = 0" by code_simp
  ultimately show ?thesis by (simp add: watch_java_keywords_def)
qed

theorem score_counts_keywords_witness:
  "score_loop ''java -jar Paper.jar nogui'' [''PAPER'', ''forge'', ''jar''] 0
     = int (length (filter (\<lambda>kw. ci_occurs kw ''java -jar Paper.jar nogui'')
                      [''PAPER'', ''forge'', ''jar'']))
   \<and> score_loop ''java -jar Paper.jar nogui'' [''PAPER'', ''forge'', ''jar''] 0 = 2"
proof -
  have "score_loop ''java -jar Paper.jar nogui'' [''PAPER'', ''forge'', ''jar''] 0 = 2"
    by code_simp
  then show ?thesis
    using score_counts_keywords[of "''java -jar Paper.jar nogui''" "[''PAPER'', ''forge'', ''jar'']"]
    by simp
qed

text \<open>
  Claim C6 says that a command line of 120 characters or fewer is shown unmodified. The
  test of the script is \<^verbatim>\<open>len(cmd) < 120\<close>, so a command line of exactly 120
  characters is cut to its first 117 characters and the three dots. (Below 120
  characters it is shown as it is and from 121 on it is cut to 117 characters and
  the dots, 120 in all: \<open>shorten_short\<close> and \<open>shorten_long\<close>.)
\<close>
theorem shorten_at_120:
  "length (replicate 120 CHR ''a'') = 120 \<and>
   shorten (replicate 120 CHR ''a'') = replicate 117 CHR ''a'' @ ''...'' \<and>
   shorten (replicate 120 CHR ''a'') \<noteq> replicate 120 CHR ''a''"
proof -
  have s: "shorten (replicate 120 CHR ''a'') = replicate 117 CHR ''a'' @ ''...''"
    by (simp add: shorten_def)
  have "replicate 120 CHR ''a'' = replicate 117 CHR ''a'' @ replicate 3 CHR ''a''"
    by (simp add: replicate_add [symmetric])
  then have "replicate 117 CHR ''a'' @ ''...'' \<noteq> replicate 120 CHR ''a''"
    by (simp add: eval_nat_numeral)
  with s show ?thesis by simp
qed

lemma row_scores_no_keywords:
  "watch_java_rows env [] pids acc = Inr rows \<Longrightarrow> \<forall>r\<in>set acc. row_score r = 0
   \<Longrightarrow> \<forall>r\<in>set rows. row_score r = 0"
proof (induction pids arbitrary: acc)
  case Nil
  then show ?case by simp
next
  case (Cons p pids)
  from Cons.prems(1) obtain x where
    x: "int_truediv (get_rss_kb env p) 1024 = Inr x"
    and rest: "watch_java_rows env [] pids (acc @ [(0, p, round1 x, get_cmdline env p)]) = Inr rows"
    by (auto simp: Let_def split: sum.splits)
  have "\<forall>r\<in>set (acc @ [(0, p, round1 x, get_cmdline env p)]). row_score r = 0"
    using Cons.prems(2) by (simp add: row_score_def)
  with Cons.IH[OF rest] show ?case by blast
qed

section \<open>The processes of live mode and of the snapshot\<close>

lemma pids_procs: "find_java_pids env_procs = [101, 102, 103, 104]" by code_simp
lemma rss_procs:
  "get_rss_kb env_procs 101 = 2048" "get_rss_kb env_procs 102 = 2049"
  "get_rss_kb env_procs 103 = 0" "get_rss_kb env_procs 104 = 1024"
  by code_simp+
lemma cmd_procs:
  "get_cmdline env_procs 101 = ''java''" "get_cmdline env_procs 102 = ''java''"
  "get_cmdline env_procs 103 = []" "get_cmdline env_procs 104 = ''paper''"
  by code_simp+
lemma score_procs:
  "score_loop ''java'' default_keywords 0 = 0" "score_loop [] default_keywords 0 = 0"
  "score_loop ''paper'' default_keywords 0 = 1"
  by code_simp+

lemma vanished_103: "vanished env_procs 103"
  by (simp add: vanished_def env_procs_def env_down_def)

lemma procs_in_range: "\<forall>p\<in>set (find_java_pids env_procs). rss_in_range (get_rss_kb env_procs p)"
  by (simp add: pids_procs rss_procs rss_in_range_def)

lemma mb_of_kb_0 [simp]: "mb_of_kb 0 = 0"
  by (simp add: mb_of_kb_def)

lemma round1_small_int:
  assumes "\<bar>x - of_int n\<bar> < 1 / 20" "\<bar>n\<bar> < 2 ^ 53"
  shows "round1 x = of_int n"
proof -
  have "\<bar>of_int (n * 10) - x * 10\<bar> < 1 / 2" using assms(1) by (simp add: abs_if split: if_splits)
  then have "round_half_even (x * 10) = n * 10" by (rule round_half_even_eqI)
  moreover have "round_double (of_int n) = of_int n" using assms(2) by (rule round_double_of_int)
  ultimately show ?thesis by (simp add: round1_def)
qed

lemma mb_of_kb_1024: "mb_of_kb 1024 = 1"
proof -
  have "round_double (of_int 1) = of_int 1" by (rule round_double_of_int) simp
  then have "round_double (of_int 1024 / 1024) = 1" by simp
  moreover have "round1 1 = of_int 1" by (rule round1_small_int) simp_all
  ultimately show ?thesis by (simp add: mb_of_kb_def)
qed

lemma mb_of_kb_2048: "mb_of_kb 2048 = 2"
proof -
  have "round_double (of_int 2) = of_int 2" by (rule round_double_of_int) simp
  then have "round_double (of_int 2048 / 1024) = 2" by simp
  moreover have "round1 2 = of_int 2" by (rule round1_small_int) simp_all
  ultimately show ?thesis by (simp add: mb_of_kb_def)
qed

lemma mb_of_kb_2049: "mb_of_kb 2049 = 2"
proof -
  have e: "(of_int 2049 / 1024 :: rat) = of_int 2049 * 2 powi (- 10)" by simp
  have a: "round_double (of_int 2049 / 1024) = of_int 2049 / 1024"
    unfolding e by (rule round_double_exact) simp_all
  have b: "round1 (of_int 2049 / 1024) = of_int 2" by (rule round1_small_int) simp_all
  show ?thesis unfolding mb_of_kb_def a b by simp
qed

lemma watch_java_sorted_in_range:
  assumes "\<forall>p\<in>set (find_java_pids env). rss_in_range (get_rss_kb env p)"
  shows "watch_java_sorted env fk =
           Inr (py_sort_reverse row_key
                  (map (live_row env (watch_java_keywords fk)) (find_java_pids env)))"
  by (simp add: watch_java_sorted_def watch_java_rows_in_range[OF assms])

lemma main_sorted_in_range:
  assumes "\<forall>p\<in>set (find_java_pids env). rss_in_range (get_rss_kb env p)"
  shows "main_sorted env =
           Inr (py_sort_reverse detail_mb (map (snapshot_detail env) (find_java_pids env)))"
  by (simp add: main_sorted_def main_details_in_range[OF assms])

lemma rows_procs:
  "live_row env_procs default_keywords 101 = (0, 101, 2, ''java'')"
  "live_row env_procs default_keywords 102 = (0, 102, 2, ''java'')"
  "live_row env_procs default_keywords 103 = (0, 103, 0, [])"
  "live_row env_procs default_keywords 104 = (1, 104, 1, ''paper'')"
  by (simp_all add: live_row_def rss_procs cmd_procs score_procs mb_of_kb_2048 mb_of_kb_2049
      mb_of_kb_1024)

lemma sorted_procs:
  "watch_java_sorted env_procs None
     = Inr [(1, 104, 1, ''paper''), (0, 101, 2, ''java''), (0, 102, 2, ''java''), (0, 103, 0, [])]"
  by (simp add: watch_java_sorted_in_range[OF procs_in_range] pids_procs watch_java_keywords_def
      rows_procs py_sort_reverse_def row_key_def)

lemma details_procs:
  "snapshot_detail env_procs 101 = (101, 2, ''java'')"
  "snapshot_detail env_procs 102 = (102, 2, ''java'')"
  "snapshot_detail env_procs 103 = (103, 0, [])"
  "snapshot_detail env_procs 104 = (104, 1, ''paper'')"
  by (simp_all add: snapshot_detail_def rss_procs cmd_procs mb_of_kb_2048 mb_of_kb_2049
      mb_of_kb_1024)

lemma main_sorted_procs:
  "main_sorted env_procs
     = Inr [(101, 2, ''java''), (102, 2, ''java''), (104, 1, ''paper''), (103, 0, [])]"
  by (simp add: main_sorted_in_range[OF procs_in_range] pids_procs details_procs
      py_sort_reverse_def detail_mb_def)

lemma row_key_le_iff:
  "row_key b \<le> row_key a \<longleftrightarrow>
     row_score b < row_score a \<or> (row_score b = row_score a \<and> row_mb b \<le> row_mb a)"
  by (cases a, cases b) (auto simp: row_key_def row_score_def row_mb_def)

lemma row_key_eq_iff: "row_key r = (s, m) \<longleftrightarrow> row_score r = s \<and> row_mb r = m"
  by (cases r) (auto simp: row_key_def row_score_def row_mb_def)

text \<open>
  Claim C3. The rows of live mode are the rows of the discovered processes, in an order
  that is descending in (score, MB), MB being the resident kilobytes divided by 1024
  and rounded to one decimal; rows with equal score and equal rounded MB keep their
  discovery order. Stated for resident sizes in the float range (\<open>rss_in_range\<close>),
  where the division raises nothing.
\<close>
theorem live_ranking:
  assumes "\<forall>p\<in>set (find_java_pids env). rss_in_range (get_rss_kb env p)"
  shows "\<exists>rows.
           watch_java_sorted env fk = Inr rows \<and>
           mset rows = mset (map (live_row env (watch_java_keywords fk)) (find_java_pids env)) \<and>
           sorted_wrt (\<lambda>a b. row_score b < row_score a
                              \<or> (row_score b = row_score a \<and> row_mb b \<le> row_mb a)) rows \<and>
           (\<forall>s m. filter (\<lambda>r. row_score r = s \<and> row_mb r = m) rows
                  = filter (\<lambda>r. row_score r = s \<and> row_mb r = m)
                      (map (live_row env (watch_java_keywords fk)) (find_java_pids env)))"
proof -
  define raw where "raw = map (live_row env (watch_java_keywords fk)) (find_java_pids env)"
  define rows where "rows = py_sort_reverse row_key raw"
  have 1: "watch_java_sorted env fk = Inr rows"
    unfolding rows_def raw_def using assms by (rule watch_java_sorted_in_range)
  have 2: "mset rows = mset raw" unfolding rows_def by (rule mset_py_sort_reverse)
  have "sorted_wrt (\<lambda>a b. row_key b \<le> row_key a) rows"
    unfolding rows_def by (rule py_sort_reverse_descending)
  then have 3: "sorted_wrt (\<lambda>a b. row_score b < row_score a
                              \<or> (row_score b = row_score a \<and> row_mb b \<le> row_mb a)) rows"
    by (simp only: row_key_le_iff)
  have 4: "filter (\<lambda>r. row_score r = s \<and> row_mb r = m) rows
             = filter (\<lambda>r. row_score r = s \<and> row_mb r = m) raw" for s m
    using py_sort_reverse_stable[of row_key "(s, m)" raw]
    by (simp only: row_key_eq_iff rows_def)
  from 1 2 3 4 show ?thesis unfolding raw_def by blast
qed

theorem live_ranking_witness:
  "find_java_pids env_procs = [101, 102, 103, 104] \<and>
   rss_in_range (get_rss_kb env_procs 101) \<and> rss_in_range (get_rss_kb env_procs 102) \<and>
   rss_in_range (get_rss_kb env_procs 103) \<and> rss_in_range (get_rss_kb env_procs 104) \<and>
   (\<exists>rows.
      watch_java_sorted env_procs None = Inr rows \<and>
      rows = [(1, 104, 1, ''paper''), (0, 101, 2, ''java''), (0, 102, 2, ''java''),
              (0, 103, 0, [])] \<and>
      sorted_wrt (\<lambda>a b. row_score b < row_score a
                         \<or> (row_score b = row_score a \<and> row_mb b \<le> row_mb a)) rows)"
proof -
  from live_ranking[OF procs_in_range, of None] obtain rows
    where rows: "watch_java_sorted env_procs None = Inr rows"
      and ord: "sorted_wrt (\<lambda>a b. row_score b < row_score a
                         \<or> (row_score b = row_score a \<and> row_mb b \<le> row_mb a)) rows"
    by blast
  from rows have "rows = [(1, 104, 1, ''paper''), (0, 101, 2, ''java''), (0, 102, 2, ''java''),
              (0, 103, 0, [])]"
    by (simp only: sorted_procs sum.inject)
  with rows ord have e: "\<exists>rows.
      watch_java_sorted env_procs None = Inr rows \<and>
      rows = [(1, 104, 1, ''paper''), (0, 101, 2, ''java''), (0, 102, 2, ''java''),
              (0, 103, 0, [])] \<and>
      sorted_wrt (\<lambda>a b. row_score b < row_score a
                         \<or> (row_score b = row_score a \<and> row_mb b \<le> row_mb a)) rows"
    by blast
  have r: "rss_in_range (get_rss_kb env_procs 101)" "rss_in_range (get_rss_kb env_procs 102)"
    "rss_in_range (get_rss_kb env_procs 103)" "rss_in_range (get_rss_kb env_procs 104)"
    using procs_in_range by (simp_all add: pids_procs)
  from pids_procs r e show ?thesis by (intro conjI)
qed

text \<open>
  Processes 101 and 102 have 2048 kB and 2049 kB, both 2.0 MB after rounding. The
  snapshot lists 101 before 102, although 102 has the strictly greater RSS.
\<close>
theorem snapshot_order_counterexample:
  "find_java_pids env_procs = [101, 102, 103, 104] \<and>
   get_rss_kb env_procs 101 = 2048 \<and> get_rss_kb env_procs 102 = 2049 \<and>
   main_sorted env_procs
     = Inr [(101, 2, ''java''), (102, 2, ''java''), (104, 1, ''paper''), (103, 0, [])]"
  by (simp add: pids_procs rss_procs main_sorted_procs)

text \<open>
  Claim C4, amended. In snapshot mode the lines of the discovered processes are in
  descending order of the RSS in MB rounded to one decimal: of two processes, the one
  with the strictly greater rounded MB comes first, and processes with equal rounded
  MB keep their discovery order. So the process with the strictly greater RSS comes
  first unless both sizes round to the same MB (the rounding is monotone,
  \<open>mb_of_kb_mono\<close>). No keyword score enters: \<open>main_sorted\<close> has no keywords.
\<close>
theorem snapshot_order:
  assumes "\<forall>p\<in>set (find_java_pids env). rss_in_range (get_rss_kb env p)"
  shows "\<exists>ds.
           main_sorted env = Inr ds \<and>
           mset ds = mset (map (snapshot_detail env) (find_java_pids env)) \<and>
           (\<forall>i j. i < length ds \<and> j < length ds \<and> detail_mb (ds ! j) < detail_mb (ds ! i)
                  \<longrightarrow> i < j) \<and>
           (\<forall>m. filter (\<lambda>d. detail_mb d = m) ds
                = filter (\<lambda>d. detail_mb d = m) (map (snapshot_detail env) (find_java_pids env))) \<and>
           (\<forall>i j. i < j \<and> j < length ds
                  \<longrightarrow> get_rss_kb env (fst (ds ! j)) \<le> get_rss_kb env (fst (ds ! i))
                      \<or> detail_mb (ds ! i) = detail_mb (ds ! j))"
proof -
  define raw where "raw = map (snapshot_detail env) (find_java_pids env)"
  define ds where "ds = py_sort_reverse detail_mb raw"
  have 1: "main_sorted env = Inr ds"
    unfolding ds_def raw_def using assms by (rule main_sorted_in_range)
  have 2: "mset ds = mset raw" unfolding ds_def by (rule mset_py_sort_reverse)
  have s: "sorted_wrt (\<lambda>a b. detail_mb b \<le> detail_mb a) ds"
    unfolding ds_def by (rule py_sort_reverse_descending)
  have 3: "i < j" if "i < length ds" "j < length ds" "detail_mb (ds ! j) < detail_mb (ds ! i)"
    for i j using s that by (rule sorted_wrt_strict_first)
  have 4: "filter (\<lambda>d. detail_mb d = m) ds = filter (\<lambda>d. detail_mb d = m) raw" for m
    unfolding ds_def by (rule py_sort_reverse_stable)
  have mbs: "detail_mb d = mb_of_kb (get_rss_kb env (fst d))" if "d \<in> set ds" for d
  proof -
    from that have "d \<in> set raw" unfolding ds_def by (simp add: set_py_sort_reverse)
    then obtain p where "d = snapshot_detail env p" unfolding raw_def by auto
    then show ?thesis by (simp add: snapshot_detail_def detail_mb_def)
  qed
  have 5: "get_rss_kb env (fst (ds ! j)) \<le> get_rss_kb env (fst (ds ! i))
             \<or> detail_mb (ds ! i) = detail_mb (ds ! j)"
    if "i < j" "j < length ds" for i j
  proof (cases "get_rss_kb env (fst (ds ! j)) \<le> get_rss_kb env (fst (ds ! i))")
    case True
    then show ?thesis by simp
  next
    case False
    then have "get_rss_kb env (fst (ds ! i)) \<le> get_rss_kb env (fst (ds ! j))" by simp
    then have "mb_of_kb (get_rss_kb env (fst (ds ! i))) \<le> mb_of_kb (get_rss_kb env (fst (ds ! j)))"
      by (rule mb_of_kb_mono)
    moreover have "ds ! i \<in> set ds" "ds ! j \<in> set ds" using that by simp_all
    ultimately have "detail_mb (ds ! i) \<le> detail_mb (ds ! j)" by (simp add: mbs)
    moreover have "detail_mb (ds ! j) \<le> detail_mb (ds ! i)"
      using s that by (simp add: sorted_wrt_iff_nth_less)
    ultimately show ?thesis by simp
  qed
  from 1 2 3 4 5 show ?thesis unfolding raw_def by blast
qed

theorem snapshot_order_witness:
  "find_java_pids env_procs = [101, 102, 103, 104] \<and>
   rss_in_range (get_rss_kb env_procs 101) \<and> rss_in_range (get_rss_kb env_procs 102) \<and>
   rss_in_range (get_rss_kb env_procs 103) \<and> rss_in_range (get_rss_kb env_procs 104) \<and>
   (\<exists>ds.
      main_sorted env_procs = Inr ds \<and>
      ds = [(101, 2, ''java''), (102, 2, ''java''), (104, 1, ''paper''), (103, 0, [])] \<and>
      (\<forall>i j. i < length ds \<and> j < length ds \<and> detail_mb (ds ! j) < detail_mb (ds ! i)
             \<longrightarrow> i < j))"
proof -
  from snapshot_order[OF procs_in_range] obtain ds
    where ds: "main_sorted env_procs = Inr ds"
      and ord: "\<forall>i j. i < length ds \<and> j < length ds \<and> detail_mb (ds ! j) < detail_mb (ds ! i)
                  \<longrightarrow> i < j"
    by blast
  from ds have "ds = [(101, 2, ''java''), (102, 2, ''java''), (104, 1, ''paper''), (103, 0, [])]"
    by (simp only: main_sorted_procs sum.inject)
  with ds ord have e: "\<exists>ds.
      main_sorted env_procs = Inr ds \<and>
      ds = [(101, 2, ''java''), (102, 2, ''java''), (104, 1, ''paper''), (103, 0, [])] \<and>
      (\<forall>i j. i < length ds \<and> j < length ds \<and> detail_mb (ds ! j) < detail_mb (ds ! i)
             \<longrightarrow> i < j)"
    by blast
  have r: "rss_in_range (get_rss_kb env_procs 101)" "rss_in_range (get_rss_kb env_procs 102)"
    "rss_in_range (get_rss_kb env_procs 103)" "rss_in_range (get_rss_kb env_procs 104)"
    using procs_in_range by (simp_all add: pids_procs)
  from pids_procs r e show ?thesis by (intro conjI)
qed


lemma vanished_rss: "vanished env p \<Longrightarrow> get_rss_kb env p = 0"
  by (auto simp: vanished_def get_rss_kb_def get_rss_kb_try_def)

lemma vanished_cmdline: "vanished env p \<Longrightarrow> get_cmdline env p = []"
  by (auto simp: vanished_def get_cmdline_def get_cmdline_try_def)

lemma vanished_live_row:
  "vanished env p \<Longrightarrow> live_row env kws p = (score_loop [] kws 0, p, 0, [])"
  by (simp add: live_row_def vanished_rss vanished_cmdline)

lemma vanished_snapshot_detail:
  "vanished env p \<Longrightarrow> snapshot_detail env p = (p, 0, [])"
  by (simp add: snapshot_detail_def vanished_rss vanished_cmdline)



lemma live_row_pids: "map row_pid (map (live_row env kws) ps) = ps"
  by (induction ps) (simp_all add: live_row_def row_pid_def)

lemma snapshot_detail_pids: "map fst (map (snapshot_detail env) ps) = ps"
  by (induction ps) (simp_all add: snapshot_detail_def)

text \<open>
  Claim C9. A process found by \<^verbatim>\<open>pgrep\<close> whose files are gone when they are read
  is in the output of both modes, with 0 MB and an empty command line: the rows of
  live mode and the lines of the snapshot have exactly the discovered process ids.
  Stated for resident sizes in the float range.
\<close>
theorem vanished_process_listed:
  assumes "p \<in> set (find_java_pids env)" "vanished env p"
    and "\<forall>q\<in>set (find_java_pids env). rss_in_range (get_rss_kb env q)"
  shows "(\<exists>rows. watch_java_sorted env fk = Inr rows
            \<and> mset (map row_pid rows) = mset (find_java_pids env)
            \<and> (score_loop [] (watch_java_keywords fk) 0, p, 0, []) \<in> set rows)
       \<and> (\<exists>prs. watch_java_cycle env fk = Inr (Table prs)
            \<and> length prs = length (find_java_pids env)
            \<and> (\<exists>mark. (mark, p, 0, []) \<in> set prs))
       \<and> (\<exists>ds. main_sorted env = Inr ds
            \<and> mset (map fst ds) = mset (find_java_pids env)
            \<and> (p, 0, []) \<in> set ds)
       \<and> snd (main env) = None
       \<and> Detail p 0 [] \<in> set (fst (main env))"
proof -
  define kws where "kws = watch_java_keywords fk"
  define raw where "raw = map (live_row env kws) (find_java_pids env)"
  define rows where "rows = py_sort_reverse row_key raw"
  define row0 where "row0 = (score_loop [] kws 0, p, 0 :: rat, [] :: string)"
  have sorted: "watch_java_sorted env fk = Inr rows"
    unfolding rows_def raw_def kws_def using assms(3) by (rule watch_java_sorted_in_range)
  have "map row_pid raw = find_java_pids env"
    unfolding raw_def by (rule live_row_pids)
  moreover have "mset (map row_pid rows) = mset (map row_pid raw)"
    unfolding rows_def by (simp add: mset_py_sort_reverse)
  ultimately have pids: "mset (map row_pid rows) = mset (find_java_pids env)" by simp
  have "row0 \<in> set raw"
    unfolding raw_def row0_def using assms(1) vanished_live_row[OF assms(2), of kws] by force
  then have mem: "row0 \<in> set rows" unfolding rows_def by (simp add: set_py_sort_reverse)
  have len: "length rows = length (find_java_pids env)"
    unfolding rows_def raw_def by (simp add: length_py_sort_reverse)
  have ne: "rows \<noteq> []" using mem by auto
  have cyc: "watch_java_cycle env fk = Inr (Table (map print_row rows))"
    using ne by (simp add: watch_java_cycle_def sorted)
  have "print_row row0 \<in> set (map print_row rows)" using mem by simp
  moreover have "print_row row0
      = ((if 0 < score_loop [] kws 0 then CHR ''*'' else CHR '' ''), p, 0, [])"
    by (simp add: row0_def print_row_def shorten_def)
  ultimately have pr: "\<exists>mark. (mark, p, 0, []) \<in> set (map print_row rows)"
    by metis
  define draw where "draw = map (snapshot_detail env) (find_java_pids env)"
  define ds where "ds = py_sort_reverse detail_mb draw"
  have ms: "main_sorted env = Inr ds"
    unfolding ds_def draw_def using assms(3) by (rule main_sorted_in_range)
  have "map fst draw = find_java_pids env"
    unfolding draw_def by (rule snapshot_detail_pids)
  moreover have "mset (map fst ds) = mset (map fst draw)"
    unfolding ds_def by (simp add: mset_py_sort_reverse)
  ultimately have dp: "mset (map fst ds) = mset (find_java_pids env)" by simp
  have "(p, 0, []) \<in> set draw"
    unfolding draw_def using assms(1) vanished_snapshot_detail[OF assms(2)] by force
  then have dm: "(p, 0, []) \<in> set ds" unfolding ds_def by (simp add: set_py_sort_reverse)
  have nonempty: "find_java_pids env \<noteq> []" using assms(1) by auto
  have m1: "snd (main env) = None"
    using nonempty by (simp add: main_def ms Let_def)
  have "Detail p 0 [] \<in> set (map (\<lambda>(pid, mb, cmd). Detail pid mb cmd) ds)"
    using dm by force
  then have m2: "Detail p 0 [] \<in> set (fst (main env))"
    using nonempty by (simp add: main_def ms Let_def)
  from sorted pids mem cyc len pr ms dp dm m1 m2 show ?thesis
    unfolding row0_def kws_def by (intro conjI exI[of _ rows] exI[of _ "map print_row rows"] exI[of _ ds]) simp_all
qed

theorem vanished_process_listed_witness:
  "find_java_pids env_procs = [101, 102, 103, 104] \<and> vanished env_procs 103 \<and>
   rss_in_range (get_rss_kb env_procs 101) \<and> rss_in_range (get_rss_kb env_procs 102) \<and>
   rss_in_range (get_rss_kb env_procs 103) \<and> rss_in_range (get_rss_kb env_procs 104) \<and>
   watch_java_sorted env_procs None
     = Inr [(1, 104, 1, ''paper''), (0, 101, 2, ''java''), (0, 102, 2, ''java''),
            (0, 103, 0, [])] \<and>
   (\<exists>prs. watch_java_cycle env_procs None = Inr (Table prs)
      \<and> length prs = length (find_java_pids env_procs)
      \<and> (\<exists>mark. (mark, 103, 0, []) \<in> set prs)) \<and>
   main_sorted env_procs
     = Inr [(101, 2, ''java''), (102, 2, ''java''), (104, 1, ''paper''), (103, 0, [])] \<and>
   snd (main env_procs) = None \<and>
   Detail 103 0 [] \<in> set (fst (main env_procs))"
proof -
  have 1: "103 \<in> set (find_java_pids env_procs)" by (simp add: pids_procs)
  note v = vanished_process_listed[OF 1 vanished_103 procs_in_range, of None]
  note v2 = v[THEN conjunct2, THEN conjunct1]
  note v4 = v[THEN conjunct2, THEN conjunct2, THEN conjunct2, THEN conjunct1]
  note v5 = v[THEN conjunct2, THEN conjunct2, THEN conjunct2, THEN conjunct2]
  have r: "rss_in_range (get_rss_kb env_procs 101)" "rss_in_range (get_rss_kb env_procs 102)"
    "rss_in_range (get_rss_kb env_procs 103)" "rss_in_range (get_rss_kb env_procs 104)"
    using procs_in_range by (simp_all add: pids_procs)
  from pids_procs vanished_103 r sorted_procs v2 main_sorted_procs v4 v5
  show ?thesis by (intro conjI)
qed

text \<open>
  Claim C10. The default keywords are used only when \<open>filter_keywords\<close> is absent. A
  non-empty \<^verbatim>\<open>--filter\<close> text of commas and white space only gives the empty list;
  with the empty list every row has score 0 and every printed row the space as its
  mark.
\<close>
theorem empty_filter_list_used:
  "watch_java_keywords None = default_keywords \<and>
   watch_java_keywords (Some []) = [] \<and>
   (f \<noteq> [] \<and> (\<forall>c\<in>set f. c = CHR '','' \<or> py_isspace c) \<longrightarrow> cli_keywords (Some f) = Some []) \<and>
   (watch_java_sorted env (Some []) = Inr rows \<longrightarrow> (\<forall>r\<in>set rows. row_score r = 0)) \<and>
   (watch_java_cycle env (Some []) = Inr (Table prs) \<longrightarrow> (\<forall>r\<in>set prs. fst r = CHR '' '')) \<and>
   ((\<forall>p\<in>set (find_java_pids env). rss_in_range (get_rss_kb env p))
    \<longrightarrow> (\<exists>scr. watch_java_cycle env (Some []) = Inr scr))"
proof -
  have sorted_scores: "\<forall>r\<in>set rows. row_score r = 0"
    if "watch_java_sorted env (Some []) = Inr rows" for rows
  proof -
    from that obtain raw where raw: "watch_java_rows env [] (find_java_pids env) [] = Inr raw"
      and rows: "rows = py_sort_reverse row_key raw"
      by (auto simp: watch_java_sorted_def watch_java_keywords_def split: sum.splits)
    have "\<forall>r\<in>set raw. row_score r = 0" using row_scores_no_keywords[OF raw] by simp
    then show ?thesis by (simp add: rows set_py_sort_reverse)
  qed
  have marks: "\<forall>r\<in>set prs. fst r = CHR '' ''"
    if "watch_java_cycle env (Some []) = Inr (Table prs)"
  proof -
    from that obtain rows where rows: "watch_java_sorted env (Some []) = Inr rows"
      and prs: "prs = map print_row rows"
      by (auto simp: watch_java_cycle_def split: sum.splits if_splits)
    from sorted_scores[OF rows] show ?thesis
      by (auto simp: prs print_row_def row_score_def)
  qed
  have returns: "\<exists>scr. watch_java_cycle env (Some []) = Inr scr"
    if "\<forall>p\<in>set (find_java_pids env). rss_in_range (get_rss_kb env p)"
    by (simp add: watch_java_cycle_def watch_java_sorted_in_range[OF that])
  show ?thesis using cli_keywords_blank[of f] sorted_scores marks returns
    by (simp add: watch_java_keywords_def)
qed

theorem empty_filter_list_used_witness:
  "'', ,'' \<noteq> [] \<and> py_isspace CHR '' '' \<and>
   cli_keywords (Some '', ,'') = Some [] \<and>
   (\<exists>rows. watch_java_sorted env_procs (Some []) = Inr rows
      \<and> rows = [(0, 101, 2, ''java''), (0, 102, 2, ''java''), (0, 104, 1, ''paper''),
                (0, 103, 0, [])]
      \<and> (\<forall>r\<in>set rows. row_score r = 0)) \<and>
   (\<exists>prs. watch_java_cycle env_procs (Some []) = Inr (Table prs)
      \<and> (\<forall>r\<in>set prs. fst r = CHR '' ''))"
proof -
  let ?R = "[(0, 101, 2, ''java''), (0, 102, 2, ''java''), (0, 104, 1, ''paper''),
             (0, 103, 0, [])] :: row list"
  have f: "'', ,'' \<noteq> [] \<and> (\<forall>c\<in>set '', ,''. c = CHR '','' \<or> py_isspace c)"
    by (simp add: py_isspace_def)
  have rows0: "live_row env_procs [] 101 = (0, 101, 2, ''java'')"
    "live_row env_procs [] 102 = (0, 102, 2, ''java'')"
    "live_row env_procs [] 103 = (0, 103, 0, [])"
    "live_row env_procs [] 104 = (0, 104, 1, ''paper'')"
    by (simp_all add: live_row_def rss_procs cmd_procs mb_of_kb_2048 mb_of_kb_2049 mb_of_kb_1024)
  have s: "watch_java_sorted env_procs (Some []) = Inr ?R"
    by (simp add: watch_java_sorted_in_range[OF procs_in_range] pids_procs watch_java_keywords_def
        rows0 py_sort_reverse_def row_key_def)
  have c: "watch_java_cycle env_procs (Some []) = Inr (Table (map print_row ?R))"
    unfolding watch_java_cycle_def s by simp
  note t = empty_filter_list_used[of "'', ,''" env_procs ?R "map print_row ?R"]
  have k: "cli_keywords (Some '', ,'') = Some []"
    using t[THEN conjunct2, THEN conjunct2, THEN conjunct1, THEN mp, OF f] .
  have rs: "\<forall>r\<in>set ?R. row_score r = 0"
    using t[THEN conjunct2, THEN conjunct2, THEN conjunct2, THEN conjunct1, THEN mp, OF s] .
  have ms: "\<forall>r\<in>set (map print_row ?R). fst r = CHR '' ''"
    using t[THEN conjunct2, THEN conjunct2, THEN conjunct2, THEN conjunct2, THEN conjunct1,
        THEN mp, OF c] .
  have e1: "\<exists>rows. watch_java_sorted env_procs (Some []) = Inr rows \<and> rows = ?R
      \<and> (\<forall>r\<in>set rows. row_score r = 0)"
    using s rs by (intro exI[of _ ?R] conjI refl)
  have e2: "\<exists>prs. watch_java_cycle env_procs (Some []) = Inr (Table prs)
      \<and> (\<forall>r\<in>set prs. fst r = CHR '' '')"
    using c ms by (intro exI[of _ "map print_row ?R"] conjI)
  have sp: "py_isspace CHR '' ''" by (simp add: py_isspace_def)
  from f have ne: "'', ,'' \<noteq> []" by (rule conjunct1)
  from ne sp k e1 e2 show ?thesis by (intro conjI)
qed

end
